theory Spec2Isabelle
  imports Complex_Main
begin

section \<open>XRainbow: a shallow embedding of \<^verbatim>\<open>xrainbow.c\<close>\<close>

text \<open>
  The program cycles the gamma correction of an X11 display through a rainbow. Its
  numbers are C \<^verbatim>\<open>float\<close> and \<^verbatim>\<open>double\<close> values; they are modelled as the real
  numbers they denote, together with the two infinities and NaN, and every arithmetic
  operation of the source rounds its exact result to the format of its C type
  (IEEE 754 binary32 and binary64, round to nearest, ties to even, each operation
  evaluated in the precision of its type). \<^verbatim>\<open>long\<close> is taken to be 64 bits wide.
\<close>

subsection \<open>Rounding to a binary floating-point format\<close>

definition pow2 :: "int \<Rightarrow> real" where
  "pow2 e = (if 0 \<le> e then 2 ^ nat e else 1 / 2 ^ nat (- e))"

text \<open>The binary exponent of a positive number: \<open>2 ^ ilog2 x \<le> x < 2 ^ (ilog2 x + 1)\<close>.\<close>

function ilog2 :: "real \<Rightarrow> int" where
  "ilog2 x = (if 2 \<le> x then ilog2 (x / 2) + 1
              else if 0 < x \<and> x < 1 then ilog2 (2 * x) - 1
              else 0)"
  by pat_completeness auto
termination
proof (relation "measure (\<lambda>x. if 1 \<le> x then nat \<lfloor>x\<rfloor> else nat \<lceil>1 / x\<rceil> + 1)")
  show "wf (measure (\<lambda>x::real. if 1 \<le> x then nat \<lfloor>x\<rfloor> else nat \<lceil>1 / x\<rceil> + 1))"
    by simp
next
  fix x :: real
  assume a: "2 \<le> x"
  then have "x / 2 \<le> x - 1" by simp
  then have "\<lfloor>x / 2\<rfloor> \<le> \<lfloor>x - 1\<rfloor>" by (rule floor_mono)
  then have "\<lfloor>x / 2\<rfloor> < \<lfloor>x\<rfloor>" by simp
  moreover have "0 < \<lfloor>x\<rfloor>" using a by linarith
  ultimately show "(x / 2, x) \<in> measure (\<lambda>x. if 1 \<le> x then nat \<lfloor>x\<rfloor> else nat \<lceil>1 / x\<rceil> + 1)"
    using a by simp
next
  fix x :: real
  assume "\<not> 2 \<le> x" and b: "0 < x \<and> x < 1"
  then have x: "0 < x" "x < 1" by simp_all
  have c1: "2 \<le> \<lceil>1 / x\<rceil>" using x by (simp add: less_ceiling_iff)
  show "(2 * x, x) \<in> measure (\<lambda>x. if 1 \<le> x then nat \<lfloor>x\<rfloor> else nat \<lceil>1 / x\<rceil> + 1)"
  proof (cases "1 \<le> 2 * x")
    case True
    have "\<lfloor>2 * x\<rfloor> = 1" using True x by linarith
    then show ?thesis using True x c1 by simp
  next
    case False
    then have "2 \<le> 1 / x" using x by (simp add: field_simps)
    then have "1 / (2 * x) \<le> 1 / x - 1" by (simp add: field_simps)
    then have "\<lceil>1 / (2 * x)\<rceil> \<le> \<lceil>1 / x - 1\<rceil>" by (rule ceiling_mono)
    then have "\<lceil>1 / (2 * x)\<rceil> < \<lceil>1 / x\<rceil>" by simp
    then show ?thesis using False x c1 by simp
  qed
qed

declare ilog2.simps [simp del]

text \<open>Rounding to the nearest integer, a tie going to the even neighbour.\<close>

definition round_half_even :: "real \<Rightarrow> int" where
  "round_half_even y =
     (let f = \<lfloor>y\<rfloor>; d = y - of_int f
      in if d < 1 / 2 then f else if 1 / 2 < d then f + 1
         else if even f then f else f + 1)"

text \<open>
  \<open>fround p emin x\<close> rounds \<open>x\<close> to a significand of \<open>p\<close> bits: to the nearest
  multiple of \<open>2 ^ fexp p emin x\<close>, the unit in the last place of \<open>x\<close>. Below the
  smallest normal exponent \<open>emin\<close> the spacing stays that of the subnormal numbers.
\<close>

definition fexp :: "nat \<Rightarrow> int \<Rightarrow> real \<Rightarrow> int" where
  "fexp p emin x = max (ilog2 \<bar>x\<bar>) emin - (int p - 1)"

definition fround :: "nat \<Rightarrow> int \<Rightarrow> real \<Rightarrow> real" where
  "fround p emin x =
     (let e = fexp p emin x in of_int (round_half_even (x / pow2 e)) * pow2 e)"

definition round_float :: "real \<Rightarrow> real" where
  "round_float x = fround 24 (- 126) x"

definition round_double :: "real \<Rightarrow> real" where
  "round_double x = fround 53 (- 1022) x"

definition FLT_MAX :: real where
  "FLT_MAX = (2 - pow2 (- 23)) * pow2 127"

definition DBL_MAX :: real where
  "DBL_MAX = (2 - pow2 (- 52)) * pow2 1023"

subsection \<open>C floating-point values and the operations the program uses\<close>

datatype fp = Val real | PosInf | NegInf | NaN

text \<open>A rounded result beyond the largest finite number of the format is an infinity.\<close>

definition overflow :: "real \<Rightarrow> real \<Rightarrow> fp" where
  "overflow mx y = (if mx < y then PosInf else if y < - mx then NegInf else Val y)"

definition float_of_real :: "real \<Rightarrow> fp" where
  "float_of_real x = overflow FLT_MAX (round_float x)"

definition double_of_real :: "real \<Rightarrow> fp" where
  "double_of_real x = overflow DBL_MAX (round_double x)"

text \<open>The conversion \<^verbatim>\<open>(float)d\<close> of a double, also implicit in an assignment to a float.\<close>

fun to_float :: "fp \<Rightarrow> fp" where
  "to_float (Val x) = float_of_real x"
| "to_float PosInf = PosInf"
| "to_float NegInf = NegInf"
| "to_float NaN = NaN"

fun fp_neg :: "fp \<Rightarrow> fp" where
  "fp_neg (Val x) = Val (- x)"
| "fp_neg PosInf = NegInf"
| "fp_neg NegInf = PosInf"
| "fp_neg NaN = NaN"

text \<open>Addition, subtraction and multiplication of doubles.\<close>

definition d_add :: "fp \<Rightarrow> fp \<Rightarrow> fp" where
  "d_add a b =
     (case (a, b) of
        (Val x, Val y) \<Rightarrow> double_of_real (x + y)
      | (NaN, _) \<Rightarrow> NaN
      | (_, NaN) \<Rightarrow> NaN
      | (PosInf, NegInf) \<Rightarrow> NaN
      | (NegInf, PosInf) \<Rightarrow> NaN
      | (PosInf, _) \<Rightarrow> PosInf
      | (NegInf, _) \<Rightarrow> NegInf
      | (_, PosInf) \<Rightarrow> PosInf
      | (_, NegInf) \<Rightarrow> NegInf)"

definition d_sub :: "fp \<Rightarrow> fp \<Rightarrow> fp" where
  "d_sub a b = d_add a (fp_neg b)"

definition fp_sign :: "fp \<Rightarrow> real" where
  "fp_sign a = (case a of Val x \<Rightarrow> sgn x | PosInf \<Rightarrow> 1 | NegInf \<Rightarrow> - 1 | NaN \<Rightarrow> 0)"

definition d_mul :: "fp \<Rightarrow> fp \<Rightarrow> fp" where
  "d_mul a b =
     (case (a, b) of
        (Val x, Val y) \<Rightarrow> double_of_real (x * y)
      | (NaN, _) \<Rightarrow> NaN
      | (_, NaN) \<Rightarrow> NaN
      | _ \<Rightarrow> (if fp_sign a * fp_sign b = 0 then NaN
              else if 0 < fp_sign a * fp_sign b then PosInf else NegInf))"

text \<open>Division of doubles (the sign of a zero is not represented).\<close>

definition d_div :: "fp \<Rightarrow> fp \<Rightarrow> fp" where
  "d_div a b =
     (case (a, b) of
        (Val x, Val y) \<Rightarrow>
          (if y \<noteq> 0 then double_of_real (x / y)
           else if x = 0 then NaN else if 0 < x then PosInf else NegInf)
      | (NaN, _) \<Rightarrow> NaN
      | (_, NaN) \<Rightarrow> NaN
      | (Val x, _) \<Rightarrow> Val 0
      | (_, Val y) \<Rightarrow> (if 0 \<le> y then a else fp_neg a)
      | _ \<Rightarrow> NaN)"

text \<open>Comparisons: every comparison with a NaN is false.\<close>

fun fp_less :: "fp \<Rightarrow> fp \<Rightarrow> bool" where
  "fp_less NaN _ = False"
| "fp_less _ NaN = False"
| "fp_less (Val x) (Val y) = (x < y)"
| "fp_less PosInf _ = False"
| "fp_less _ NegInf = False"
| "fp_less _ PosInf = True"
| "fp_less NegInf _ = True"

fun fp_le :: "fp \<Rightarrow> fp \<Rightarrow> bool" where
  "fp_le NaN _ = False"
| "fp_le _ NaN = False"
| "fp_le (Val x) (Val y) = (x \<le> y)"
| "fp_le NegInf _ = True"
| "fp_le _ PosInf = True"
| "fp_le PosInf _ = False"
| "fp_le _ NegInf = False"

definition fp_greater :: "fp \<Rightarrow> fp \<Rightarrow> bool" where
  "fp_greater a b = fp_less b a"

definition fp_ge :: "fp \<Rightarrow> fp \<Rightarrow> bool" where
  "fp_ge a b = fp_le b a"

text \<open>The values of type \<^verbatim>\<open>float\<close>: those that the conversion to float leaves alone.\<close>

definition is_float :: "fp \<Rightarrow> bool" where
  "is_float a = (to_float a = a)"

text \<open>Truncation towards zero, as the cast to \<^verbatim>\<open>long\<close> and \<^verbatim>\<open>fmod\<close> do it.\<close>

definition trunc :: "real \<Rightarrow> int" where
  "trunc x = (if 0 \<le> x then \<lfloor>x\<rfloor> else \<lceil>x\<rceil>)"

text \<open>
  \<^verbatim>\<open>fmod(x, y)\<close>: the remainder \<open>x - n * y\<close> with \<open>n\<close> the quotient truncated towards
  zero. The result is exact (it is never rounded); it is NaN for an infinite or NaN
  \<open>x\<close>, a NaN \<open>y\<close> and a zero \<open>y\<close>, and \<open>x\<close> itself for an infinite \<open>y\<close>.
\<close>

definition fmod :: "fp \<Rightarrow> fp \<Rightarrow> fp" where
  "fmod a b =
     (case (a, b) of
        (Val x, Val y) \<Rightarrow> (if y = 0 then NaN else Val (x - of_int (trunc (x / y)) * y))
      | (Val x, PosInf) \<Rightarrow> Val x
      | (Val x, NegInf) \<Rightarrow> Val x
      | _ \<Rightarrow> NaN)"

subsection \<open>How a call ends\<close>

text \<open>
  A function of the program either returns or ends the process: by \<^verbatim>\<open>exit\<close> with a
  status, by \<^verbatim>\<open>abort\<close> from a failed \<^verbatim>\<open>assert\<close>, or by behaviour the C standard leaves
  undefined (a cast out of the range of \<^verbatim>\<open>long\<close>, a signed overflow, an access outside
  an array).
\<close>

datatype stop = Exit nat | Abort | Undefined

datatype 'a outcome = Return 'a | Stop stop

definition EXIT_SUCCESS :: nat where "EXIT_SUCCESS = 0"
definition EXIT_FAILURE :: nat where "EXIT_FAILURE = 1"

subsection \<open>Integers of type \<^verbatim>\<open>long\<close>\<close>

definition LONG_MIN :: int where "LONG_MIN = - (2 ^ 63)"
definition LONG_MAX :: int where "LONG_MAX = 2 ^ 63 - 1"

definition in_long :: "int \<Rightarrow> bool" where
  "in_long n = (LONG_MIN \<le> n \<and> n \<le> LONG_MAX)"

text \<open>\<^verbatim>\<open>(long)t\<close>: defined only when the truncated value fits.\<close>

definition long_of_double :: "fp \<Rightarrow> int outcome" where
  "long_of_double t =
     (case t of
        Val x \<Rightarrow> (if in_long (trunc x) then Return (trunc x) else Stop Undefined)
      | _ \<Rightarrow> Stop Undefined)"

definition long_add :: "int \<Rightarrow> int \<Rightarrow> int outcome" where
  "long_add a b = (if in_long (a + b) then Return (a + b) else Stop Undefined)"

text \<open>C's \<^verbatim>\<open>/\<close> and \<^verbatim>\<open>%\<close> on integers truncate towards zero.\<close>

definition c_div :: "int \<Rightarrow> int \<Rightarrow> int" where
  "c_div a b = sgn a * sgn b * (\<bar>a\<bar> div \<bar>b\<bar>)"

definition c_rem :: "int \<Rightarrow> int \<Rightarrow> int" where
  "c_rem a b = a - c_div a b * b"

subsection \<open>The process and the display connection\<close>

text \<open>
  The globals of the program, the functions registered with \<^verbatim>\<open>atexit\<close>, and what the
  process has done that can be seen from outside: the requests it sent over the display
  connection (\<open>xlog\<close>, oldest first; a gamma request carries the answer the server
  gave) and the texts it printed.
\<close>

datatype xcall = OpenDisplay | SetGamma fp fp fp bool | Flush | CloseDisplay

datatype handler = Quit_application

datatype printed = Usage | Version | Error_message

record process =
  x11_display :: "nat option"
  x11_screen :: int
  pending_quit :: int
  atexit_fns :: "handler list"
  xlog :: "xcall list"
  printed :: "printed list"

definition initial_process :: process where
  "initial_process =
     \<lparr>x11_display = None, x11_screen = 0, pending_quit = 0, atexit_fns = [],
      xlog = [], printed = []\<rparr>"

text \<open>
  The float literals \<^verbatim>\<open>0.1f\<close>, \<^verbatim>\<open>10.0f\<close>, \<^verbatim>\<open>9.9f\<close> and \<^verbatim>\<open>1.0f\<close> of \<^verbatim>\<open>change_gamma\<close>,
  \<^verbatim>\<open>quit_application\<close> and \<^verbatim>\<open>main\<close>. The literals \<^verbatim>\<open>0.0\<close>, \<^verbatim>\<open>0.0f\<close>, \<^verbatim>\<open>1.0\<close>, \<^verbatim>\<open>-1.0\<close> and
  \<^verbatim>\<open>1.0e9\<close>, and the \<^verbatim>\<open>1.0f\<close> of \<^verbatim>\<open>call_rainbow\<close> that is promoted to double, are integers
  that both formats hold exactly; they are written \<open>Val 0\<close>, \<open>Val 1\<close>, \<open>Val (- 1)\<close> and
  \<open>Val 1000000000\<close>.
\<close>

definition f_0_1 :: fp where "f_0_1 = float_of_real (1 / 10)"
definition f_10 :: fp where "f_10 = float_of_real 10"
definition f_9_9 :: fp where "f_9_9 = float_of_real (99 / 10)"
definition f_1 :: fp where "f_1 = float_of_real 1"

definition gamma_in_range :: "fp \<Rightarrow> bool" where
  "gamma_in_range r = (fp_ge r f_0_1 \<and> fp_le r f_10)"

text \<open>
  \<^verbatim>\<open>change_gamma\<close>: three assertions, then the request to the server, whose answer \<open>ok\<close>
  comes from outside; a refusal ends the process with \<^verbatim>\<open>exit(EXIT_FAILURE)\<close>. A request
  on a null connection is undefined.
\<close>

definition change_gamma :: "bool \<Rightarrow> fp \<Rightarrow> fp \<Rightarrow> fp \<Rightarrow> process \<Rightarrow> unit outcome \<times> process" where
  "change_gamma ok r g b s =
     (if \<not> gamma_in_range r then (Stop Abort, s)
      else if \<not> gamma_in_range g then (Stop Abort, s)
      else if \<not> gamma_in_range b then (Stop Abort, s)
      else if x11_display s = None then (Stop Undefined, s)
      else if \<not> ok
        then (Stop (Exit EXIT_FAILURE),
              s\<lparr>xlog := xlog s @ [SetGamma r g b False], printed := printed s @ [Error_message]\<rparr>)
        else (Return (), s\<lparr>xlog := xlog s @ [SetGamma r g b True, Flush]\<rparr>))"

subsection \<open>The colour function\<close>

text \<open>\<^verbatim>\<open>palette[i] += x\<close> with \<open>x\<close> a double: the sum is formed in double and stored as a float.\<close>

definition palette_add :: "fp list \<Rightarrow> int \<Rightarrow> fp \<Rightarrow> fp list outcome" where
  "palette_add p i x =
     (if 0 \<le> i \<and> i < int (length p)
      then Return (p[nat i := to_float (d_add (p ! nat i) x)])
      else Stop Undefined)"

text \<open>
  The palette that \<^verbatim>\<open>call_rainbow\<close> computes before it calls \<^verbatim>\<open>change_gamma\<close>
  (the first three lines of its body).
\<close>

definition rainbow_palette :: "fp \<Rightarrow> fp \<Rightarrow> fp list outcome" where
  "rainbow_palette t c =
     (case long_of_double t of
        Stop e \<Rightarrow> Stop e
      | Return n \<Rightarrow>
         (case palette_add [c, c, c] (c_rem n 3) (d_sub (Val 1) (fmod t (Val 1))) of
            Stop e \<Rightarrow> Stop e
          | Return p \<Rightarrow>
             (case long_add n 1 of
                Stop e \<Rightarrow> Stop e
              | Return n1 \<Rightarrow> palette_add p (c_rem n1 3) (fmod t (Val 1)))))"

definition call_rainbow :: "bool \<Rightarrow> fp \<Rightarrow> fp \<Rightarrow> process \<Rightarrow> unit outcome \<times> process" where
  "call_rainbow ok t c s =
     (case rainbow_palette t c of
        Stop e \<Rightarrow> (Stop e, s)
      | Return p \<Rightarrow> change_gamma ok (p ! 0) (p ! 1) (p ! 2) s)"

subsection \<open>The time source and the teardown\<close>

text \<open>
  \<^verbatim>\<open>get_time\<close>: \<open>ts\<close> is what \<^verbatim>\<open>clock_gettime\<close> stored (seconds and nanoseconds), or
  \<open>None\<close> when it failed, which ends the process.
\<close>

definition get_time :: "(int \<times> int) option \<Rightarrow> process \<Rightarrow> fp outcome \<times> process" where
  "get_time ts s =
     (case ts of
        None \<Rightarrow> (Stop (Exit EXIT_FAILURE), s\<lparr>printed := printed s @ [Error_message]\<rparr>)
      | Some (tv_sec, tv_nsec) \<Rightarrow>
          (Return (d_add (double_of_real (of_int tv_sec))
                         (d_div (double_of_real (of_int tv_nsec)) (Val 1000000000))), s))"

definition quit_application :: "bool \<Rightarrow> process \<Rightarrow> unit outcome \<times> process" where
  "quit_application ok s =
     (case change_gamma ok f_1 f_1 f_1 s of
        (Stop e, s') \<Rightarrow> (Stop e, s')
      | (Return _, s') \<Rightarrow>
          (if x11_display s' \<noteq> None
           then (Return (), s'\<lparr>xlog := xlog s' @ [CloseDisplay], x11_display := None\<rparr>)
           else (Return (), s')))"

definition handle_signal :: "process \<Rightarrow> process" where
  "handle_signal s = s\<lparr>pending_quit := 1\<rparr>"

subsection \<open>The command line\<close>

record config =
  time_limit :: fp
  speed :: fp
  luminosity :: fp

text \<open>The initial values of the three locals of \<^verbatim>\<open>main\<close>; the last is \<^verbatim>\<open>1.0f / 3.0f\<close>.\<close>

definition default_config :: config where
  "default_config =
     \<lparr>time_limit = Val (- 1), speed = Val 1, luminosity = float_of_real (1 / 3)\<rparr>"

text \<open>
  The loop over \<^verbatim>\<open>argv[1..]\<close>. It ends the process through \<^verbatim>\<open>print_usage_and_exit\<close> or
  \<^verbatim>\<open>print_version_and_exit\<close> (\<open>Quit\<close> with the text printed and the exit status), or
  runs to the end of the arguments (\<open>Proceed\<close>). \<^verbatim>\<open>atof\<close> is the C library's.
\<close>

datatype parsed = Proceed config | Quit printed nat

text \<open>\<^verbatim>\<open>!strcmp(a, short) || !strcmp(a, long)\<close>\<close>

definition is_flag :: "string \<Rightarrow> string \<Rightarrow> string \<Rightarrow> bool" where
  "is_flag a short long = (a = short \<or> a = long)"

function parse_args :: "(string \<Rightarrow> fp) \<Rightarrow> string list \<Rightarrow> config \<Rightarrow> parsed" where
  "parse_args atof [] cfg = Proceed cfg"
| "parse_args atof (a # rest) cfg =
     (if is_flag a ''-h'' ''--help'' then Quit Usage EXIT_SUCCESS
      else if is_flag a ''-v'' ''--version'' then Quit Version EXIT_SUCCESS
      else if is_flag a ''-t'' ''--time-limit'' \<and> rest \<noteq> []
        then parse_args atof (tl rest) (cfg\<lparr>time_limit := atof (hd rest)\<rparr>)
      else if is_flag a ''-l'' ''--luminosity'' \<and> rest \<noteq> []
        then (let l = to_float (atof (hd rest))
              in if fp_less l f_0_1 \<or> fp_greater l f_9_9 then Quit Usage EXIT_FAILURE
                 else parse_args atof (tl rest) (cfg\<lparr>luminosity := l\<rparr>))
      else if is_flag a ''-s'' ''--speed'' \<and> rest \<noteq> []
        then (let v = atof (hd rest)
              in if fp_le v (Val 0) then Quit Usage EXIT_FAILURE
                 else parse_args atof (tl rest) (cfg\<lparr>speed := v\<rparr>))
      else Quit Usage EXIT_FAILURE)"
  by pat_completeness auto
termination
  by (relation "measure (\<lambda>(atof, args, cfg). length args)") auto

subsection \<open>The process as a machine\<close>

text \<open>
  After the start-up the process is in the main loop, in an exit (running the functions
  registered with \<^verbatim>\<open>atexit\<close>) or ended. Inside the loop the control points are the loop
  condition, the call of \<^verbatim>\<open>call_rainbow\<close>, \<^verbatim>\<open>sched_yield\<close> and the test of
  \<^verbatim>\<open>pending_quit\<close>.
\<close>

datatype pc = Cond | Body | Yield | Check | Exiting nat | Ended stop

record machine =
  proc :: process
  cfg :: config
  start_time :: fp
  pc :: pc

text \<open>What the outside world answers during one step of the program.\<close>

record input =
  now :: "(int \<times> int) option"
  gamma_ok :: bool

text \<open>
  \<^verbatim>\<open>exit(status)\<close>, also reached by returning from \<^verbatim>\<open>main\<close>: the registered functions
  run, then the process ends with the status.
\<close>

definition c_exit :: "nat \<Rightarrow> machine \<Rightarrow> machine" where
  "c_exit status m =
     (if atexit_fns (proc m) = [] then m\<lparr>pc := Ended (Exit status)\<rparr>
      else m\<lparr>pc := Exiting status\<rparr>)"

definition halt :: "stop \<Rightarrow> machine \<Rightarrow> machine" where
  "halt e m = (case e of Exit status \<Rightarrow> c_exit status m | _ \<Rightarrow> m\<lparr>pc := Ended e\<rparr>)"

text \<open>
  One step of the program. In an exit the most recently registered function is taken off
  the list and run; a second call of \<^verbatim>\<open>exit\<close> from inside it is undefined.
\<close>

definition step :: "input \<Rightarrow> machine \<Rightarrow> machine" where
  "step i m =
     (case pc m of
        Cond \<Rightarrow>
          (if fp_less (time_limit (cfg m)) (Val 0) then m\<lparr>pc := Body\<rparr>
           else (case get_time (now i) (proc m) of
                   (Stop e, s) \<Rightarrow> halt e (m\<lparr>proc := s\<rparr>)
                 | (Return tm, s) \<Rightarrow>
                     (if fp_ge (time_limit (cfg m)) (d_sub tm (start_time m))
                      then m\<lparr>proc := s, pc := Body\<rparr>
                      else c_exit EXIT_SUCCESS (m\<lparr>proc := s\<rparr>))))
      | Body \<Rightarrow>
          (case get_time (now i) (proc m) of
             (Stop e, s) \<Rightarrow> halt e (m\<lparr>proc := s\<rparr>)
           | (Return tm, s) \<Rightarrow>
               (case call_rainbow (gamma_ok i) (d_mul (d_sub tm (start_time m)) (speed (cfg m)))
                       (luminosity (cfg m)) s of
                  (Stop e, s') \<Rightarrow> halt e (m\<lparr>proc := s'\<rparr>)
                | (Return _, s') \<Rightarrow> m\<lparr>proc := s', pc := Yield\<rparr>))
      | Yield \<Rightarrow> m\<lparr>pc := Check\<rparr>
      | Check \<Rightarrow>
          (if pending_quit (proc m) \<noteq> 0 then c_exit EXIT_SUCCESS m else m\<lparr>pc := Cond\<rparr>)
      | Exiting status \<Rightarrow>
          (case atexit_fns (proc m) of
             [] \<Rightarrow> m\<lparr>pc := Ended (Exit status)\<rparr>
           | Quit_application # fns \<Rightarrow>
               (case quit_application (gamma_ok i) ((proc m)\<lparr>atexit_fns := fns\<rparr>) of
                  (Return _, s) \<Rightarrow> c_exit status (m\<lparr>proc := s\<rparr>)
                | (Stop (Exit _), s) \<Rightarrow> m\<lparr>proc := s, pc := Ended Undefined\<rparr>
                | (Stop e, s) \<Rightarrow> m\<lparr>proc := s, pc := Ended e\<rparr>))
      | Ended e \<Rightarrow> m)"

text \<open>
  A signal handled by \<^verbatim>\<open>handle_signal\<close> may arrive between any two steps of a process
  that has not ended.
\<close>

datatype event = Signal | Step input

definition fire :: "machine \<Rightarrow> event \<Rightarrow> machine" where
  "fire m ev =
     (case ev of
        Signal \<Rightarrow> (case pc m of Ended e \<Rightarrow> m | _ \<Rightarrow> m\<lparr>proc := handle_signal (proc m)\<rparr>)
      | Step i \<Rightarrow> step i m)"

definition run :: "machine \<Rightarrow> event list \<Rightarrow> machine" where
  "run m evs = foldl fire m evs"

text \<open>
  \<^verbatim>\<open>main\<close> up to the loop: the command line, \<^verbatim>\<open>XOpenDisplay\<close> (its answer \<open>dpy\<close> is the
  connection and its default screen, or \<open>None\<close>), the registration of
  \<^verbatim>\<open>quit_application\<close>, the signal handlers and the first reading \<open>ts\<close> of the clock.
\<close>

definition startup ::
  "(string \<Rightarrow> fp) \<Rightarrow> (nat \<times> int) option \<Rightarrow> (int \<times> int) option \<Rightarrow> string list \<Rightarrow> machine" where
  "startup atof dpy ts args =
     (let m0 = \<lparr>proc = initial_process, cfg = default_config, start_time = Val 0, pc = Cond\<rparr>
      in case parse_args atof args default_config of
           Quit text status \<Rightarrow>
             c_exit status (m0\<lparr>proc := initial_process\<lparr>printed := [text]\<rparr>\<rparr>)
         | Proceed c \<Rightarrow>
             (case dpy of
                None \<Rightarrow>
                  c_exit EXIT_FAILURE
                    (m0\<lparr>proc := initial_process\<lparr>xlog := [OpenDisplay], printed := [Error_message]\<rparr>,
                        cfg := c\<rparr>)
              | Some (d, scr) \<Rightarrow>
                  (let s = initial_process
                         \<lparr>x11_display := Some d, x11_screen := scr,
                          atexit_fns := [Quit_application], xlog := [OpenDisplay]\<rparr>
                   in case get_time ts s of
                        (Stop e, s') \<Rightarrow> halt e (m0\<lparr>proc := s', cfg := c\<rparr>)
                      | (Return tm, s') \<Rightarrow> m0\<lparr>proc := s', cfg := c, start_time := tm\<rparr>)))"

subsection \<open>Notions used to state the properties\<close>

text \<open>The control points inside the main loop.\<close>

fun in_loop :: "pc \<Rightarrow> bool" where
  "in_loop Cond = True"
| "in_loop Body = True"
| "in_loop Yield = True"
| "in_loop Check = True"
| "in_loop (Exiting status) = False"
| "in_loop (Ended e) = False"

text \<open>The number of gamma requests in a log, and of program steps in a list of events.\<close>

fun is_gamma :: "xcall \<Rightarrow> bool" where
  "is_gamma (SetGamma r g b ok) = True"
| "is_gamma OpenDisplay = False"
| "is_gamma Flush = False"
| "is_gamma CloseDisplay = False"

definition gamma_calls :: "xcall list \<Rightarrow> nat" where
  "gamma_calls xs = length (filter is_gamma xs)"

fun is_step :: "event \<Rightarrow> bool" where
  "is_step (Step i) = True"
| "is_step Signal = False"

definition steps :: "event list \<Rightarrow> nat" where
  "steps evs = length (filter is_step evs)"

text \<open>
  The teardown as it shows in the log: the neutral gamma accepted by the server, the
  flush, and the release of the connection, with no release before.
\<close>

definition torn_down :: "xcall list \<Rightarrow> bool" where
  "torn_down l =
     (\<exists>xs. l = xs @ [SetGamma f_1 f_1 f_1 True, Flush, CloseDisplay] \<and> CloseDisplay \<notin> set xs)"

text \<open>
  What holds of a process from the start of the loop on: until the teardown the
  connection is open, \<^verbatim>\<open>quit_application\<close> is registered and nothing was released; after an
  exit with a status the teardown has happened.
\<close>

definition teardown_inv :: "machine \<Rightarrow> bool" where
  "teardown_inv m =
     (case pc m of
        Ended (Exit status) \<Rightarrow>
          torn_down (xlog (proc m)) \<and> x11_display (proc m) = None \<and> atexit_fns (proc m) = []
      | Ended e \<Rightarrow> CloseDisplay \<notin> set (xlog (proc m))
      | _ \<Rightarrow> atexit_fns (proc m) = [Quit_application] \<and> x11_display (proc m) \<noteq> None
             \<and> CloseDisplay \<notin> set (xlog (proc m)))"

text \<open>The number of program steps that a loop whose stop flag is set can still take.\<close>

fun loop_rank :: "pc \<Rightarrow> nat" where
  "loop_rank Cond = 4"
| "loop_rank Body = 3"
| "loop_rank Yield = 2"
| "loop_rank Check = 1"
| "loop_rank (Exiting status) = 0"
| "loop_rank (Ended e) = 0"

text \<open>
  What holds from the moment the stop flag is set, \<open>k\<close> being the number of gamma
  requests made until then: the flag stays set, and while the loop is not left at most
  one more request is made, none before the next call of \<^verbatim>\<open>call_rainbow\<close>.
\<close>

definition since_flag :: "nat \<Rightarrow> machine \<Rightarrow> bool" where
  "since_flag k m = (pending_quit (proc m) \<noteq> 0 \<and>
     (in_loop (pc m) \<longrightarrow> gamma_calls (xlog (proc m)) \<le> k + 1
        \<and> (pc m = Cond \<or> pc m = Body \<longrightarrow> gamma_calls (xlog (proc m)) = k)))"

text \<open>
  Two values of a channel that differ by at most \<open>d\<close>; an infinity or a NaN is close to
  itself only.
\<close>

definition fp_close :: "real \<Rightarrow> fp \<Rightarrow> fp \<Rightarrow> bool" where
  "fp_close d a b = (case (a, b) of (Val x, Val y) \<Rightarrow> \<bar>x - y\<bar> \<le> d | _ \<Rightarrow> a = b)"

text \<open>
  A bound on what the two roundings of a channel \<^verbatim>\<open>palette[i] += x\<close> (to double, then to
  float) can move it, for the luminosity \<open>L\<close> and a boost in [0, 1].
\<close>

definition rounding_tolerance :: "fp \<Rightarrow> real" where
  "rounding_tolerance L = (case L of Val c \<Rightarrow> (\<bar>c\<bar> + 1) / 2 ^ 21 | _ \<Rightarrow> 0)"

section \<open>Properties\<close>

subsection \<open>Evaluating the definitions\<close>

lemmas rounding_defs =
  float_of_real_def double_of_real_def overflow_def round_float_def round_double_def
  FLT_MAX_def DBL_MAX_def fround_def fexp_def round_half_even_def pow2_def Let_def

lemma f_0_1_eq: "f_0_1 = Val (13421773 / 134217728)"
  by (simp add: f_0_1_def rounding_defs ilog2.simps)

lemma f_9_9_eq: "f_9_9 = Val (5190451 / 524288)"
  by (simp add: f_9_9_def rounding_defs ilog2.simps)

lemma f_10_eq: "f_10 = Val 10"
  by (simp add: f_10_def rounding_defs ilog2.simps)

lemma f_1_eq: "f_1 = Val 1"
  by (simp add: f_1_def rounding_defs ilog2.simps)

lemmas long_defs = long_of_double_def long_add_def in_long_def LONG_MIN_def LONG_MAX_def
  trunc_def c_rem_def c_div_def

declare parse_args.simps [simp del]

lemma default_luminosity: "float_of_real (1 / 3) = Val (11184811 / 33554432)"
  by (simp add: rounding_defs ilog2.simps)

subsection \<open>Powers of two and the binary exponent\<close>

lemma pow2_powi: "pow2 e = 2 powi e"
  by (simp add: pow2_def power_int_def field_simps)

lemma pow2_pos [simp]: "0 < pow2 e"
  by (simp add: pow2_powi)

lemma pow2_nonneg [simp]: "0 \<le> pow2 e"
  using pow2_pos [of e] by linarith

lemma pow2_neq_0 [simp]: "pow2 e \<noteq> 0"
  using pow2_pos [of e] by linarith

lemma pow2_add: "pow2 (a + b) = pow2 a * pow2 b"
  by (simp add: pow2_powi power_int_add)

lemma pow2_diff: "pow2 (a - b) = pow2 a / pow2 b"
  by (simp add: pow2_powi power_int_diff)

lemma pow2_mono: "a \<le> b \<Longrightarrow> pow2 a \<le> pow2 b"
  by (simp add: pow2_powi power_int_increasing)

lemma pow2_strict_mono: "a < b \<Longrightarrow> pow2 a < pow2 b"
  by (simp add: pow2_powi power_int_strict_increasing)

lemma pow2_less_iff: "pow2 a < pow2 b \<longleftrightarrow> a < b"
  using pow2_strict_mono [of a b] pow2_mono [of b a] by (cases "a < b") auto

lemma pow2_le_iff: "pow2 a \<le> pow2 b \<longleftrightarrow> a \<le> b"
  using pow2_strict_mono [of b a] pow2_mono [of a b] by (cases "a \<le> b") auto

lemma pow2_0 [simp]: "pow2 0 = 1"
  by (simp add: pow2_def)

lemma pow2_1 [simp]: "pow2 1 = 2"
  by (simp add: pow2_def)

lemma pow2_Suc: "pow2 (e + 1) = 2 * pow2 e"
  by (simp add: pow2_add)

lemma pow2_nat: "0 \<le> e \<Longrightarrow> pow2 e = of_int (2 ^ nat e)"
  by (simp add: pow2_def)

lemma ilog2_bounds: "0 < x \<Longrightarrow> pow2 (ilog2 x) \<le> x \<and> x < pow2 (ilog2 x + 1)"
proof (induction x rule: ilog2.induct)
  case (1 x)
  show ?case
  proof (cases "2 \<le> x")
    case True
    then have "pow2 (ilog2 (x / 2)) \<le> x / 2 \<and> x / 2 < pow2 (ilog2 (x / 2) + 1)"
      using 1 by simp
    moreover have "ilog2 x = ilog2 (x / 2) + 1"
      using True by (subst ilog2.simps) simp
    ultimately show ?thesis
      using pow2_Suc [of "ilog2 (x / 2)"] pow2_Suc [of "ilog2 (x / 2) + 1"] by auto
  next
    case False
    show ?thesis
    proof (cases "x < 1")
      case True
      define k where "k = ilog2 (2 * x)"
      have h: "pow2 k \<le> 2 * x \<and> 2 * x < pow2 (k + 1)"
        using 1 False True by (simp add: k_def)
      have e: "ilog2 x = k - 1"
        using True False 1(3) unfolding k_def by (subst ilog2.simps) simp
      have p1: "pow2 k = 2 * pow2 (k - 1)" using pow2_Suc [of "k - 1"] by simp
      have p2: "pow2 (k + 1) = 2 * pow2 k" by (rule pow2_Suc)
      have "pow2 (k - 1) \<le> x \<and> x < pow2 k" using h p1 p2 by linarith
      then show ?thesis by (simp add: e)
    next
      case b: False
      then have "ilog2 x = 0" using False by (subst ilog2.simps) simp
      then show ?thesis using False b by (simp add: pow2_Suc)
    qed
  qed
qed

lemma ilog2_unique:
  assumes "pow2 e \<le> x" "x < pow2 (e + 1)"
  shows "ilog2 x = e"
proof -
  have x: "0 < x" using assms(1) pow2_pos [of e] by linarith
  note b = ilog2_bounds [OF x]
  have "pow2 e < pow2 (ilog2 x + 1)" using assms b by linarith
  then have 1: "e < ilog2 x + 1" by (simp add: pow2_less_iff)
  have "pow2 (ilog2 x) < pow2 (e + 1)" using assms b by linarith
  then have 2: "ilog2 x < e + 1" by (simp add: pow2_less_iff)
  from 1 2 show ?thesis by simp
qed

lemma ilog2_mono: "0 < a \<Longrightarrow> a \<le> x \<Longrightarrow> ilog2 a \<le> ilog2 x"
proof -
  assume a: "0 < a" "a \<le> x"
  then have x: "0 < x" by simp
  have "pow2 (ilog2 a) < pow2 (ilog2 x + 1)"
    using ilog2_bounds [OF a(1)] ilog2_bounds [OF x] a by linarith
  then show ?thesis by (simp add: pow2_less_iff)
qed

lemma rhe_cases: "round_half_even y = \<lfloor>y\<rfloor> \<or> round_half_even y = \<lfloor>y\<rfloor> + 1"
  by (simp add: round_half_even_def Let_def)

lemma rhe_of_int [simp]: "round_half_even (of_int k) = k"
  by (simp add: round_half_even_def)

lemma rhe_0 [simp]: "round_half_even 0 = 0"
  using rhe_of_int [of 0] by simp

lemma rhe_lower: "of_int k \<le> y \<Longrightarrow> k \<le> round_half_even y"
proof -
  assume "of_int k \<le> y"
  then have "k \<le> \<lfloor>y\<rfloor>" by (simp add: le_floor_iff)
  then show ?thesis using rhe_cases [of y] by auto
qed

lemma rhe_upper: "y \<le> of_int k \<Longrightarrow> round_half_even y \<le> k"
proof -
  assume a: "y \<le> of_int k"
  show ?thesis
  proof (cases "y = of_int k")
    case True then show ?thesis by simp
  next
    case False
    then have "y < of_int k" using a by simp
    then have "\<lfloor>y\<rfloor> < k" by (simp add: floor_less_iff)
    then show ?thesis using rhe_cases [of y] by auto
  qed
qed

lemma rhe_error: "\<bar>of_int (round_half_even y) - y\<bar> \<le> 1 / 2"
  unfolding round_half_even_def Let_def by (auto; linarith)

lemma rhe_minus: "round_half_even (- y) = - round_half_even y"
proof (cases "y = of_int \<lfloor>y\<rfloor>")
  case True
  then obtain k where "y = of_int k" by metis
  then show ?thesis by (simp flip: of_int_minus)
next
  case False
  then have f: "\<lfloor>- y\<rfloor> = - \<lfloor>y\<rfloor> - 1"
    by (metis ceiling_altdef ceiling_def add_diff_cancel_right' diff_minus_eq_add minus_diff_eq uminus_add_conv_diff Ints_of_int of_int_floor)
  show ?thesis
    unfolding round_half_even_def Let_def f
    by (auto; linarith?)
qed


lemma fexp_minus: "fexp p emin (- x) = fexp p emin x"
  by (simp add: fexp_def)

lemma fround_minus: "fround p emin (- x) = - fround p emin x"
  by (simp add: fround_def fexp_minus rhe_minus Let_def)

lemma fround_0 [simp]: "fround p emin 0 = 0"
  by (simp add: fround_def)

lemma fround_nonneg: "0 \<le> x \<Longrightarrow> 0 \<le> fround p emin x"
proof -
  assume "0 \<le> x"
  then have "of_int 0 \<le> x / pow2 (fexp p emin x)" by simp
  then have "0 \<le> round_half_even (x / pow2 (fexp p emin x))" by (rule rhe_lower)
  then show ?thesis by (simp add: fround_def Let_def)
qed

text \<open>A positive number lies below the top of its binade.\<close>

lemma below_binade:
  assumes "0 < x"
  shows "x < pow2 (fexp p emin x + int p)"
proof -
  have "x < pow2 (ilog2 x + 1)" using ilog2_bounds [OF assms] by simp
  also have "\<dots> \<le> pow2 (fexp p emin x + int p)"
    using assms by (intro pow2_mono) (simp add: fexp_def)
  finally show ?thesis .
qed

lemma pow2_int: "pow2 (int n) = 2 ^ n"
  by (simp add: pow2_def)

lemma fround_le_binade:
  assumes "0 < x"
  shows "fround p emin x \<le> pow2 (fexp p emin x + int p)"
proof -
  define e where "e = fexp p emin x"
  have "x / pow2 e < pow2 (int p)"
    using below_binade [OF assms, of p emin] by (simp add: e_def pow2_add field_simps)
  then have "x / pow2 e \<le> of_int (2 ^ p)" by (simp add: pow2_int)
  then have "round_half_even (x / pow2 e) \<le> 2 ^ p" by (rule rhe_upper)
  then have "of_int (round_half_even (x / pow2 e)) \<le> (2 ^ p :: real)"
    by (metis of_int_le_iff of_int_numeral of_int_power)
  then have "of_int (round_half_even (x / pow2 e)) * pow2 e \<le> 2 ^ p * pow2 e"
    by (simp)
  then show ?thesis by (simp add: fround_def Let_def pow2_add pow2_int mult.commute flip: e_def)
qed

text \<open>A number with a short enough significand is not changed.\<close>

lemma fround_exact_aux:
  assumes m: "\<bar>m\<bar> < 2 ^ p" and e: "emin - (int p - 1) \<le> e"
  shows "fround p emin (of_int m * pow2 e) = of_int m * pow2 e"
proof (cases "m = 0")
  case True then show ?thesis by simp
next
  case False
  define y where "y = of_int m * pow2 e"
  define e' where "e' = fexp p emin y"
  have ypos: "0 < \<bar>y\<bar>" using False by (simp add: y_def)
  have "\<bar>y\<bar> = of_int \<bar>m\<bar> * pow2 e" by (simp add: y_def abs_mult)
  also have "\<dots> < 2 ^ p * pow2 e"
    using m by (simp add: of_int_less_iff [where 'a = real, symmetric] del: of_int_less_iff)
  finally have "\<bar>y\<bar> < pow2 (e + int p)" by (simp add: pow2_add pow2_int mult.commute)
  then have "pow2 (ilog2 \<bar>y\<bar>) < pow2 (e + int p)"
    using ilog2_bounds [OF ypos] by linarith
  then have "ilog2 \<bar>y\<bar> < e + int p" by (simp add: pow2_less_iff)
  then have le: "e' \<le> e" using e by (simp add: e'_def fexp_def)
  have "pow2 e = pow2 (e - e') * pow2 e'" by (simp flip: pow2_add)
  also have "pow2 (e - e') = of_int (2 ^ nat (e - e'))" using le by (simp add: pow2_nat)
  finally have "y / pow2 e' = of_int (m * 2 ^ nat (e - e'))"
    by (simp add: y_def)
  then have "round_half_even (y / pow2 e') = m * 2 ^ nat (e - e')"
    by (simp only: rhe_of_int)
  then have "fround p emin y = of_int (m * 2 ^ nat (e - e')) * pow2 e'"
    by (simp add: fround_def Let_def flip: e'_def)
  also have "\<dots> = y / pow2 e' * pow2 e'"
    using \<open>y / pow2 e' = of_int (m * 2 ^ nat (e - e'))\<close> by simp
  also have "\<dots> = y" by simp
  finally show ?thesis by (simp add: y_def)
qed

lemma fround_exact:
  assumes p: "0 < p" and m: "\<bar>m\<bar> \<le> 2 ^ p" and e: "emin - (int p - 1) \<le> e"
  shows "fround p emin (of_int m * pow2 e) = of_int m * pow2 e"
proof (cases "\<bar>m\<bar> < 2 ^ p")
  case True then show ?thesis using e by (rule fround_exact_aux)
next
  case False
  then have "\<bar>m\<bar> = 2 ^ p" using m by simp
  then obtain s :: int where s: "m = s * 2 ^ p" "\<bar>s\<bar> = 1"
    by (cases "0 \<le> m") (auto intro: that [of 1] that [of "-1"])
  obtain q where q: "p = Suc q" using p by (cases p) auto
  have "of_int m * pow2 e = of_int (s * 2 ^ q) * pow2 (e + 1)"
    by (simp add: s q pow2_Suc)
  moreover have "fround p emin (of_int (s * 2 ^ q) * pow2 (e + 1)) = of_int (s * 2 ^ q) * pow2 (e + 1)"
  proof (rule fround_exact_aux)
    show "\<bar>s * 2 ^ q\<bar> < 2 ^ p" using s by (simp add: abs_mult q)
    show "emin - (int p - 1) \<le> e + 1" using e by simp
  qed
  ultimately show ?thesis by simp
qed


lemma fexp_abs: "fexp p emin \<bar>x\<bar> = fexp p emin x"
  by (simp add: fexp_def)

lemma fexp_lower: "emin - (int p - 1) \<le> fexp p emin x"
  by (simp add: fexp_def)

lemma fexp_mono: "0 < a \<Longrightarrow> a \<le> x \<Longrightarrow> fexp p emin a \<le> fexp p emin x"
  using ilog2_mono [of a x] by (simp add: fexp_def)

lemma rhe_abs_le: "\<bar>y\<bar> \<le> of_int k \<Longrightarrow> \<bar>round_half_even y\<bar> \<le> k"
proof -
  assume a: "\<bar>y\<bar> \<le> of_int k"
  then have "y \<le> of_int k" by linarith
  then have 1: "round_half_even y \<le> k" by (rule rhe_upper)
  have "of_int (- k) \<le> y" using a by simp
  then have 2: "- k \<le> round_half_even y" by (rule rhe_lower)
  from 1 2 show ?thesis by simp
qed

lemma significand_bound: "\<bar>round_half_even (x / pow2 (fexp p emin x))\<bar> \<le> 2 ^ p"
proof (cases "x = 0")
  case True then show ?thesis by simp
next
  case False
  then have "0 < \<bar>x\<bar>" by simp
  from below_binade [OF this, of p emin]
  have "\<bar>x\<bar> < pow2 (fexp p emin x) * 2 ^ p" by (simp add: fexp_abs pow2_add pow2_int)
  then have "\<bar>x\<bar> / pow2 (fexp p emin x) < 2 ^ p" by (simp add: field_simps)
  then have "\<bar>x / pow2 (fexp p emin x)\<bar> \<le> of_int (2 ^ p)" by simp
  then show ?thesis by (rule rhe_abs_le)
qed

lemma fround_idem:
  assumes "0 < p"
  shows "fround p emin (fround p emin x) = fround p emin x"
  unfolding fround_def [of p emin x] Let_def
  using assms significand_bound fexp_lower by (rule fround_exact)

lemma rhe_mono: "y1 \<le> y2 \<Longrightarrow> round_half_even y1 \<le> round_half_even y2"
proof -
  assume a: "y1 \<le> y2"
  then have f: "\<lfloor>y1\<rfloor> \<le> \<lfloor>y2\<rfloor>" by (rule floor_mono)
  show ?thesis
  proof (cases "\<lfloor>y1\<rfloor> = \<lfloor>y2\<rfloor>")
    case True
    then show ?thesis using a unfolding round_half_even_def Let_def by auto
  next
    case False
    then have "\<lfloor>y1\<rfloor> + 1 \<le> \<lfloor>y2\<rfloor>" using f by simp
    then show ?thesis using rhe_cases [of y1] rhe_cases [of y2] by auto
  qed
qed

text \<open>A normal number rounds to at least the bottom of its binade.\<close>

lemma binade_le_fround:
  assumes p: "0 < p" and x: "0 < x" and n: "emin \<le> ilog2 x"
  shows "pow2 (ilog2 x) \<le> fround p emin x"
proof -
  define e where "e = fexp p emin x"
  have ex: "e = ilog2 x - (int p - 1)" using n x by (simp add: e_def fexp_def)
  obtain q where q: "p = Suc q" using p by (cases p) auto
  have eq: "pow2 (ilog2 x) = pow2 (int q) * pow2 e" by (simp add: ex q flip: pow2_add)
  moreover have "pow2 (ilog2 x) \<le> x" using ilog2_bounds [OF x] by simp
  ultimately have "of_int (2 ^ q) \<le> x / pow2 e" by (simp add: pow2_int field_simps)
  then have "2 ^ q \<le> round_half_even (x / pow2 e)" by (rule rhe_lower)
  then have "(2 ^ q :: real) \<le> of_int (round_half_even (x / pow2 e))"
    by (metis of_int_le_iff of_int_numeral of_int_power)
  then have "2 ^ q * pow2 e \<le> of_int (round_half_even (x / pow2 e)) * pow2 e"
    by simp
  then show ?thesis using eq by (simp add: fround_def Let_def pow2_int flip: e_def)
qed

lemma fround_mono_pos:
  assumes p: "0 < p" and x: "0 \<le> x" "x \<le> y"
  shows "fround p emin x \<le> fround p emin y"
proof (cases "x = 0")
  case True
  then show ?thesis using x fround_nonneg [of y p emin] by simp
next
  case False
  then have xp: "0 < x" and yp: "0 < y" using x by simp_all
  define e where "e = fexp p emin y"
  have le: "fexp p emin x \<le> e" unfolding e_def using xp x(2) by (rule fexp_mono)
  show ?thesis
  proof (cases "fexp p emin x = e")
    case True
    have "x / pow2 e \<le> y / pow2 e" using x(2) by (simp add: field_simps)
    then have "round_half_even (x / pow2 e) \<le> round_half_even (y / pow2 e)"
      by (rule rhe_mono)
    then have "of_int (round_half_even (x / pow2 e)) * pow2 e
       \<le> of_int (round_half_even (y / pow2 e)) * pow2 e" by simp
    then show ?thesis by (simp add: fround_def Let_def True flip: e_def)
  next
    case False
    then have lt: "fexp p emin x < e" using le by simp
    have "emin - (int p - 1) \<le> fexp p emin x" by (rule fexp_lower)
    then have n: "emin \<le> ilog2 y" and ey: "e = ilog2 y - (int p - 1)"
      using lt yp unfolding e_def by (simp_all add: fexp_def max_def split: if_splits)
    have "fround p emin x \<le> pow2 (fexp p emin x + int p)"
      using xp by (rule fround_le_binade)
    also have "\<dots> \<le> pow2 (ilog2 y)" using lt ey by (intro pow2_mono) simp
    also have "\<dots> \<le> fround p emin y" using p yp n by (rule binade_le_fround)
    finally show ?thesis .
  qed
qed

lemma fround_mono:
  assumes p: "0 < p" and xy: "x \<le> y"
  shows "fround p emin x \<le> fround p emin y"
proof (cases "0 \<le> x")
  case True
  with p show ?thesis using xy by (rule fround_mono_pos)
next
  case False
  show ?thesis
  proof (cases "0 \<le> y")
    case True
    have "fround p emin (- x) \<ge> 0" using False by (intro fround_nonneg) simp
    then have "fround p emin x \<le> 0" by (simp add: fround_minus)
    then show ?thesis using fround_nonneg [OF True, of p emin] by linarith
  next
    case y: False
    have "fround p emin (- y) \<le> fround p emin (- x)"
      using p by (rule fround_mono_pos) (use y xy in simp_all)
    then show ?thesis by (simp add: fround_minus)
  qed
qed

lemma fround_error: "\<bar>fround p emin x - x\<bar> \<le> pow2 (fexp p emin x) / 2"
proof -
  define e where "e = fexp p emin x"
  have "\<bar>of_int (round_half_even (x / pow2 e)) - x / pow2 e\<bar> * pow2 e \<le> 1 / 2 * pow2 e"
    by (intro mult_right_mono rhe_error) simp
  moreover have "\<bar>of_int (round_half_even (x / pow2 e)) - x / pow2 e\<bar> * pow2 e
    = \<bar>(of_int (round_half_even (x / pow2 e)) - x / pow2 e) * pow2 e\<bar>"
    by (simp add: abs_mult)
  moreover have "(of_int (round_half_even (x / pow2 e)) - x / pow2 e) * pow2 e
    = of_int (round_half_even (x / pow2 e)) * pow2 e - x"
    by (simp add: left_diff_distrib)
  ultimately show ?thesis by (simp add: fround_def Let_def flip: e_def)
qed

lemma fexp_le:
  assumes "\<bar>x\<bar> < pow2 k" "emin < k" "0 < k"
  shows "fexp p emin x \<le> k - int p"
proof (cases "x = 0")
  case True
  then show ?thesis using assms by (simp add: fexp_def ilog2.simps)
next
  case False
  then have "0 < \<bar>x\<bar>" by simp
  then have "pow2 (ilog2 \<bar>x\<bar>) < pow2 k" using ilog2_bounds [of "\<bar>x\<bar>"] assms(1) by linarith
  then have "ilog2 \<bar>x\<bar> < k" by (simp add: pow2_less_iff)
  then show ?thesis using assms by (simp add: fexp_def)
qed

subsection \<open>Rounding without overflow\<close>

lemma pow2_numeral: "pow2 (numeral n) = 2 ^ numeral n" "pow2 (- numeral n) = 1 / 2 ^ numeral n"
  by (simp_all add: pow2_def)

lemma FLT_MAX_bounds: "pow2 127 \<le> FLT_MAX" "FLT_MAX \<le> pow2 128"
proof -
  have "pow2 128 = 2 * pow2 127" using pow2_Suc [of 127] by simp
  moreover have "0 < pow2 (- 23)" "pow2 (- 23) \<le> pow2 0"
    by (simp, intro pow2_mono, simp)
  ultimately show "pow2 127 \<le> FLT_MAX" "FLT_MAX \<le> pow2 128"
    by (simp_all add: FLT_MAX_def algebra_simps mult_left_le_one_le)
qed

lemma DBL_MAX_bound: "pow2 1023 \<le> DBL_MAX"
proof -
  have "0 < pow2 (- 52)" "pow2 (- 52) \<le> pow2 0"
    by (simp, intro pow2_mono, simp)
  then show ?thesis
    by (simp add: DBL_MAX_def algebra_simps mult_left_le_one_le)
qed

lemma FLT_MAX_le_DBL_MAX: "FLT_MAX \<le> DBL_MAX"
proof -
  have "pow2 128 \<le> pow2 1023" by (intro pow2_mono) simp
  then show ?thesis using FLT_MAX_bounds DBL_MAX_bound by linarith
qed

lemma sixteen_le_max: "16 \<le> FLT_MAX" "16 \<le> DBL_MAX"
proof -
  have "pow2 4 \<le> pow2 127" by (intro pow2_mono) simp
  moreover have "pow2 4 = 16" by (simp add: pow2_def)
  ultimately show "16 \<le> FLT_MAX" using FLT_MAX_bounds by linarith
  then show "16 \<le> DBL_MAX" using FLT_MAX_le_DBL_MAX by linarith
qed

lemma overflow_Val: "\<bar>y\<bar> \<le> mx \<Longrightarrow> overflow mx y = Val y"
  by (auto simp: overflow_def)

lemma overflow_eq_Val: "overflow mx y = Val z \<longleftrightarrow> y = z \<and> \<bar>y\<bar> \<le> mx"
  by (auto simp: overflow_def)

lemma fround_abs_le:
  assumes "0 < p" "\<bar>x\<bar> \<le> b" "fround p emin b = b"
  shows "\<bar>fround p emin x\<bar> \<le> b"
proof -
  have "fround p emin x \<le> fround p emin b" using assms by (intro fround_mono) simp_all
  moreover have "fround p emin (- b) \<le> fround p emin x" using assms by (intro fround_mono) simp_all
  ultimately show ?thesis using assms(3) by (simp add: fround_minus)
qed

lemma round_double_mono: "x \<le> y \<Longrightarrow> round_double x \<le> round_double y"
  unfolding round_double_def by (rule fround_mono) simp

lemma round_float_mono: "x \<le> y \<Longrightarrow> round_float x \<le> round_float y"
  unfolding round_float_def by (rule fround_mono) simp

lemma round_int_small:
  "round_double 0 = 0" "round_double 1 = 1" "round_double 16 = 16"
  "round_float 0 = 0" "round_float 1 = 1" "round_float 16 = 16"
  by (simp_all add: round_double_def round_float_def fround_def fexp_def round_half_even_def
      pow2_def ilog2.simps)

lemma round_double_abs_le_16: "\<bar>x\<bar> \<le> 16 \<Longrightarrow> \<bar>round_double x\<bar> \<le> 16"
  unfolding round_double_def
  by (rule fround_abs_le) (simp_all add: round_int_small [unfolded round_double_def])

lemma round_float_abs_le_16: "\<bar>x\<bar> \<le> 16 \<Longrightarrow> \<bar>round_float x\<bar> \<le> 16"
  unfolding round_float_def
  by (rule fround_abs_le) (simp_all add: round_int_small [unfolded round_float_def])

lemma double_of_real_small: "\<bar>x\<bar> \<le> 16 \<Longrightarrow> double_of_real x = Val (round_double x)"
  unfolding double_of_real_def
  using round_double_abs_le_16 [of x] sixteen_le_max by (intro overflow_Val) linarith

lemma float_of_real_small: "\<bar>x\<bar> \<le> 16 \<Longrightarrow> float_of_real x = Val (round_float x)"
  unfolding float_of_real_def
  using round_float_abs_le_16 [of x] sixteen_le_max by (intro overflow_Val) linarith

lemma float_of_real_eq_Val: "float_of_real c = Val c \<longleftrightarrow> round_float c = c \<and> \<bar>c\<bar> \<le> FLT_MAX"
  by (auto simp: float_of_real_def overflow_eq_Val)

lemma double_of_real_eq_Val: "double_of_real c = Val c \<longleftrightarrow> round_double c = c \<and> \<bar>c\<bar> \<le> DBL_MAX"
  by (auto simp: double_of_real_def overflow_eq_Val)

lemma float_round_double:
  assumes "round_float c = c"
  shows "round_double c = c"
proof -
  define m where "m = round_half_even (c / pow2 (fexp 24 (- 126) c))"
  have c: "c = of_int m * pow2 (fexp 24 (- 126) c)"
    using assms by (simp add: round_float_def fround_def Let_def m_def)
  have "\<bar>m\<bar> \<le> 2 ^ 24" unfolding m_def by (rule significand_bound)
  then have m: "\<bar>m\<bar> \<le> 2 ^ 53" by simp
  have e: "- 1022 - (int 53 - 1) \<le> fexp 24 (- 126) c"
    using fexp_lower [of "- 126" 24 c] by simp
  have "fround 53 (- 1022) (of_int m * pow2 (fexp 24 (- 126) c)) = of_int m * pow2 (fexp 24 (- 126) c)"
    using _ m e by (rule fround_exact) simp
  then show ?thesis using c by (simp add: round_double_def)
qed

lemma float_is_double: "float_of_real c = Val c \<Longrightarrow> double_of_real c = Val c"
  using FLT_MAX_le_DBL_MAX
  by (auto simp: float_of_real_eq_Val double_of_real_eq_Val float_round_double)

lemma mod3_cases: "(n::int) mod 3 = 0 \<or> n mod 3 = 1 \<or> n mod 3 = 2"
  by presburger

lemma c_rem_nonneg: "0 \<le> n \<Longrightarrow> c_rem n 3 = n mod 3"
  by (cases "n = 0") (simp_all add: c_rem_def c_div_def minus_div_mult_eq_mod)

lemma trunc_nonneg: "0 \<le> x \<Longrightarrow> trunc x = \<lfloor>x\<rfloor>"
  by (simp add: trunc_def)


lemma boost_small:
  assumes "\<bar>c\<bar> \<le> 15" "0 \<le> x" "x \<le> 1"
  shows "to_float (d_add (Val c) (Val x)) = Val (round_float (round_double (c + x)))"
proof -
  have "\<bar>c + x\<bar> \<le> 16" using assms by linarith
  then have "d_add (Val c) (Val x) = Val (round_double (c + x))"
    and "\<bar>round_double (c + x)\<bar> \<le> 16"
    by (simp_all add: d_add_def double_of_real_small round_double_abs_le_16)
  then show ?thesis by (simp add: float_of_real_small)
qed

lemma frac_bounds: "0 \<le> t - of_int \<lfloor>t\<rfloor>" "t - of_int \<lfloor>t\<rfloor> < (1::real)"
  by linarith+

lemma fmod_one: "fmod (Val t) (Val 1) = Val (t - of_int (trunc t))"
  by (simp add: fmod_def)

lemma round_double_unit:
  assumes "0 \<le> x" "x \<le> 1"
  shows "0 \<le> round_double x" "round_double x \<le> 1"
  using round_double_mono [OF assms(1)] round_double_mono [OF assms(2)]
  by (simp_all add: round_int_small)

lemma palette_finite:
  assumes t: "0 \<le> t" "t < 2 ^ 63 - 1" and c: "\<bar>c\<bar> \<le> 15"
  defines "f \<equiv> t - of_int \<lfloor>t\<rfloor>"
  defines "hi \<equiv> round_float (round_double (c + round_double (1 - f)))"
    and "lo \<equiv> round_float (round_double (c + f))"
  shows "rainbow_palette (Val t) (Val c) =
     Return (if \<lfloor>t\<rfloor> mod 3 = 0 then [Val hi, Val lo, Val c]
             else if \<lfloor>t\<rfloor> mod 3 = 1 then [Val c, Val hi, Val lo]
             else [Val lo, Val c, Val hi])"
proof -
  define n where "n = \<lfloor>t\<rfloor>"
  have n0: "0 \<le> n" using t by (simp add: n_def)
  have "of_int n < (2 ^ 63 - 1 :: real)" using t unfolding n_def by linarith
  then have "of_int n < (of_int (2 ^ 63 - 1) :: real)" by simp
  then have n1: "n < 2 ^ 63 - 1" by (simp only: of_int_less_iff)
  have cast: "long_of_double (Val t) = Return n"
    using n0 n1 t by (simp add: long_of_double_def trunc_nonneg in_long_def LONG_MIN_def LONG_MAX_def n_def)
  have add: "long_add n 1 = Return (n + 1)"
    using n0 n1 by (simp add: long_add_def in_long_def LONG_MIN_def LONG_MAX_def)
  have fm: "fmod (Val t) (Val 1) = Val f"
    using t by (simp add: fmod_one trunc_nonneg f_def)
  have f: "0 \<le> f" "f < 1" unfolding f_def by linarith+
  have "\<bar>1 - f\<bar> \<le> 16" using f by simp
  then have sub: "d_sub (Val 1) (Val f) = Val (round_double (1 - f))"
    by (simp add: d_sub_def d_add_def double_of_real_small)
  have x1: "0 \<le> round_double (1 - f)" "round_double (1 - f) \<le> 1"
    using f by (simp_all add: round_double_unit)
  have bhi: "to_float (d_add (Val c) (Val (round_double (1 - f)))) = Val hi"
    unfolding hi_def using c x1 by (rule boost_small)
  have blo: "to_float (d_add (Val c) (Val f)) = Val lo"
    unfolding lo_def using c f by (intro boost_small) simp_all
  have r0: "c_rem n 3 = n mod 3" using n0 by (rule c_rem_nonneg)
  have r1: "c_rem (n + 1) 3 = (n + 1) mod 3" using n0 by (intro c_rem_nonneg) simp
  consider "n mod 3 = 0" | "n mod 3 = 1" | "n mod 3 = 2"
    using mod3_cases [of n] by blast
  then show ?thesis
  proof cases
    case 1
    then have "(n + 1) mod 3 = 1" by presburger
    then show ?thesis using 1
      by (simp add: rainbow_palette_def cast add fm sub r0 r1 palette_add_def bhi blo flip: n_def)
  next
    case 2
    then have "(n + 1) mod 3 = 2" by presburger
    then show ?thesis using 2
      by (simp add: rainbow_palette_def cast add fm sub r0 r1 palette_add_def bhi blo flip: n_def)
  next
    case 3
    then have "(n + 1) mod 3 = 0" by presburger
    then show ?thesis using 3
      by (simp add: rainbow_palette_def cast add fm sub r0 r1 palette_add_def bhi blo flip: n_def)
  qed
qed


lemma round_float_error_16:
  assumes "\<bar>x\<bar> < 16"
  shows "\<bar>round_float x - x\<bar> \<le> 1 / 2 ^ 21"
proof -
  have "\<bar>x\<bar> < pow2 4" using assms by (simp add: pow2_def)
  then have "fexp 24 (- 126) x \<le> 4 - int 24" by (rule fexp_le) simp_all
  then have "pow2 (fexp 24 (- 126) x) \<le> pow2 (- 20)" by (intro pow2_mono) simp
  then have "pow2 (fexp 24 (- 126) x) / 2 \<le> 1 / 2 ^ 21" by (simp add: pow2_def)
  then show ?thesis
    unfolding round_float_def using fround_error [of 24 "- 126" x] by linarith
qed

lemma round_double_error_16:
  assumes "\<bar>x\<bar> < 16"
  shows "\<bar>round_double x - x\<bar> \<le> 1 / 2 ^ 50"
proof -
  have "\<bar>x\<bar> < pow2 4" using assms by (simp add: pow2_def)
  then have "fexp 53 (- 1022) x \<le> 4 - int 53" by (rule fexp_le) simp_all
  then have "pow2 (fexp 53 (- 1022) x) \<le> pow2 (- 49)" by (intro pow2_mono) simp
  then have "pow2 (fexp 53 (- 1022) x) / 2 \<le> 1 / 2 ^ 50" by (simp add: pow2_def)
  then show ?thesis
    unfolding round_double_def using fround_error [of 53 "- 1022" x] by linarith
qed

lemma round_double_error_2:
  assumes "\<bar>x\<bar> < 2"
  shows "\<bar>round_double x - x\<bar> \<le> 1 / 2 ^ 53"
proof -
  have "\<bar>x\<bar> < pow2 1" using assms by simp
  then have "fexp 53 (- 1022) x \<le> 1 - int 53" by (rule fexp_le) simp_all
  then have "pow2 (fexp 53 (- 1022) x) \<le> pow2 (- 52)" by (intro pow2_mono) simp
  then have "pow2 (fexp 53 (- 1022) x) / 2 \<le> 1 / 2 ^ 53" by (simp add: pow2_def)
  then show ?thesis
    unfolding round_double_def using fround_error [of 53 "- 1022" x] by linarith
qed

text \<open>Storing \<open>c + x\<close>, for a float \<open>c\<close> in [0.1, 9.9] and a boost \<open>x\<close> in [0, 1].\<close>

lemma boost_bounds:
  assumes c: "round_float c = c" "1 / 10 \<le> c" "c \<le> 99 / 10" and x: "0 \<le> x" "x \<le> 1"
  defines "v \<equiv> round_float (round_double (c + x))"
  shows "c \<le> v" "v \<le> round_float (round_double (c + 1))" "\<bar>v - (c + x)\<bar> \<le> 1 / 2 ^ 21 + 1 / 2 ^ 50"
proof -
  have "round_double c \<le> round_double (c + x)" using x by (intro round_double_mono) simp
  then have "round_float (round_double c) \<le> v" unfolding v_def by (rule round_float_mono)
  then show "c \<le> v" using c by (simp add: float_round_double)
  have "round_double (c + x) \<le> round_double (c + 1)" using x by (intro round_double_mono) simp
  then show "v \<le> round_float (round_double (c + 1))" unfolding v_def by (rule round_float_mono)
  have "c + x \<le> 11" using c x by linarith
  then have "round_double (c + x) \<le> round_double 11" by (rule round_double_mono)
  also have "round_double 11 = 11"
    by (simp add: round_double_def fround_def fexp_def round_half_even_def pow2_def ilog2.simps)
  finally have u: "round_double (c + x) \<le> 11" .
  have "round_double 0 \<le> round_double (c + x)" using c x by (intro round_double_mono) simp
  then have l: "0 \<le> round_double (c + x)" by (simp add: round_int_small)
  have 1: "\<bar>v - round_double (c + x)\<bar> \<le> 1 / 2 ^ 21"
    unfolding v_def using l u by (intro round_float_error_16) simp
  have 2: "\<bar>round_double (c + x) - (c + x)\<bar> \<le> 1 / 2 ^ 50"
    using c x by (intro round_double_error_16) simp
  from 1 2 show "\<bar>v - (c + x)\<bar> \<le> 1 / 2 ^ 21 + 1 / 2 ^ 50" by linarith
qed

lemma is_float_Val: "is_float (Val c) \<longleftrightarrow> round_float c = c \<and> \<bar>c\<bar> \<le> FLT_MAX"
  by (simp add: is_float_def float_of_real_eq_Val)


subsection \<open>Facts about the operations of the colour function\<close>

text \<open>Every double below 2 ^ 63 is at most 2 ^ 63 - 1024.\<close>

lemma double_below_2_63:
  assumes "round_double t = t" "t < 2 ^ 63"
  shows "t \<le> 2 ^ 63 - 1024"
proof (cases "t < 2 ^ 62")
  case True
  then show ?thesis by simp
next
  case False
  then have "pow2 62 \<le> t" "t < pow2 (62 + 1)" using assms(2) by (simp_all add: pow2_def)
  then have i: "ilog2 t = 62" by (rule ilog2_unique)
  have tp: "0 < t" using False by simp
  then have e: "fexp 53 (- 1022) t = 10" by (simp add: fexp_def i)
  define m where "m = round_half_even (t / pow2 10)"
  have t: "t = of_int m * 1024"
    using assms(1) by (simp add: round_double_def fround_def e m_def) (simp add: pow2_def)
  then have "of_int m * 1024 < (2 ^ 63 :: real)" using assms(2) by simp
  then have "of_int m < (of_int (2 ^ 53) :: real)" by simp
  then have "m < 2 ^ 53" by (simp only: of_int_less_iff)
  then have "m \<le> 2 ^ 53 - 1" by simp
  then have "of_int m \<le> (of_int (2 ^ 53 - 1) :: real)" by (simp only: of_int_le_iff)
  then show ?thesis using t by simp
qed

lemma d_add_zero:
  assumes "is_float L"
  shows "d_add L (Val 0) = L"
proof (cases L)
  case (Val c)
  then have "float_of_real c = Val c" using assms by (simp add: is_float_def)
  then show ?thesis using Val by (simp add: d_add_def float_is_double)
qed (simp_all add: d_add_def)

lemma store_zero:
  assumes "is_float L"
  shows "to_float (d_add L (Val 0)) = L"
  using assms by (simp add: d_add_zero) (simp add: is_float_def)

lemma boost_exact:
  assumes "is_float (Val (c + x))"
  shows "to_float (d_add (Val c) (Val x)) = Val (c + x)"
proof -
  have f: "float_of_real (c + x) = Val (c + x)" using assms by (simp add: is_float_def)
  then have "d_add (Val c) (Val x) = Val (c + x)" by (simp add: d_add_def float_is_double)
  then show ?thesis using f by simp
qed

lemma double_of_real_consts: "double_of_real 1 = Val 1" "double_of_real (1 / 2) = Val (1 / 2)"
  by (simp_all add: rounding_defs ilog2.simps)

lemma long_of_double_nonneg:
  assumes "0 \<le> t" "t < 2 ^ 63 - 1"
  shows "long_of_double (Val t) = Return \<lfloor>t\<rfloor>" "0 \<le> \<lfloor>t\<rfloor>" "\<lfloor>t\<rfloor> < 2 ^ 63 - 1"
proof -
  show n0: "0 \<le> \<lfloor>t\<rfloor>" using assms by simp
  have "of_int \<lfloor>t\<rfloor> < (2 ^ 63 - 1 :: real)" using assms by linarith
  then have "of_int \<lfloor>t\<rfloor> < (of_int (2 ^ 63 - 1) :: real)" by simp
  then show n1: "\<lfloor>t\<rfloor> < 2 ^ 63 - 1" by (simp only: of_int_less_iff)
  show "long_of_double (Val t) = Return \<lfloor>t\<rfloor>"
    using n0 n1 assms
    by (simp add: long_of_double_def trunc_nonneg in_long_def LONG_MIN_def LONG_MAX_def)
qed

lemma palette_add_Return:
  "0 \<le> i \<Longrightarrow> i < int (length p) \<Longrightarrow> \<exists>q. palette_add p i x = Return q \<and> length q = length p"
  by (simp add: palette_add_def)

subsection \<open>Storing a boosted channel, for any float luminosity\<close>

lemma rhe_near:
  assumes "\<bar>y - of_int M\<bar> < 1 / 2"
  shows "round_half_even y = M"
proof (cases "of_int M \<le> y")
  case True
  then have "\<lfloor>y\<rfloor> = M" using assms by (intro floor_unique) linarith+
  then show ?thesis using assms True by (simp add: round_half_even_def Let_def)
next
  case False
  then have f: "\<lfloor>y\<rfloor> = M - 1" using assms by (intro floor_unique) (simp; linarith)+
  have "1 / 2 < y - of_int (M - 1)" using assms False by simp
  then show ?thesis using f by (simp add: round_half_even_def Let_def)
qed

text \<open>A number close enough to a multiple of its unit in the last place rounds to it.\<close>

lemma fround_near:
  assumes "a = of_int M * pow2 (fexp p emin y)" "\<bar>y - a\<bar> < pow2 (fexp p emin y) / 2"
  shows "fround p emin y = a"
proof -
  define e where "e = fexp p emin y"
  have "\<bar>y / pow2 e - of_int M\<bar> = \<bar>(y - a) / pow2 e\<bar>"
    using assms(1) by (simp add: e_def field_simps)
  also have "\<dots> = \<bar>y - a\<bar> / pow2 e" by (simp add: abs_divide)
  also have "\<dots> < 1 / 2" using assms(2) by (simp add: e_def field_simps)
  finally have "round_half_even (y / pow2 e) = M" by (rule rhe_near)
  then show ?thesis using assms(1) by (simp add: fround_def Let_def flip: e_def)
qed

lemma ilog2_range:
  assumes "pow2 a \<le> x" "x < pow2 b"
  shows "a \<le> ilog2 x" "ilog2 x < b"
proof -
  have x: "0 < x" using assms(1) pow2_pos [of a] by linarith
  note i = ilog2_bounds [OF x]
  have "pow2 a < pow2 (ilog2 x + 1)" using assms i by linarith
  then show "a \<le> ilog2 x" by (simp add: pow2_less_iff)
  have "pow2 (ilog2 x) < pow2 b" using assms i by linarith
  then show "ilog2 x < b" by (simp add: pow2_less_iff)
qed

text \<open>The relative error of a rounding.\<close>

lemma fround_rel_error_normal:
  assumes p: "0 < p" and x: "x \<noteq> 0" and n: "emin \<le> ilog2 \<bar>x\<bar>"
  shows "\<bar>fround p emin x - x\<bar> \<le> \<bar>x\<bar> / 2 ^ p"
proof -
  have e: "fexp p emin x = ilog2 \<bar>x\<bar> - int p + 1" using n by (simp add: fexp_def)
  have "pow2 (ilog2 \<bar>x\<bar> - int p + 1) = 2 * pow2 (ilog2 \<bar>x\<bar> - int p)" by (rule pow2_Suc)
  also have "pow2 (ilog2 \<bar>x\<bar> - int p) = pow2 (ilog2 \<bar>x\<bar>) / 2 ^ p"
    by (simp add: pow2_diff pow2_int)
  finally have "pow2 (fexp p emin x) / 2 = pow2 (ilog2 \<bar>x\<bar>) / 2 ^ p" by (simp add: e)
  moreover have "pow2 (ilog2 \<bar>x\<bar>) \<le> \<bar>x\<bar>" using ilog2_bounds [of "\<bar>x\<bar>"] x by simp
  then have "pow2 (ilog2 \<bar>x\<bar>) / 2 ^ p \<le> \<bar>x\<bar> / 2 ^ p" by (simp add: divide_right_mono)
  ultimately show ?thesis using fround_error [of p emin x] by linarith
qed

lemma fround_rel_error:
  assumes p: "0 < p"
  shows "\<bar>fround p emin x - x\<bar> \<le> \<bar>x\<bar> / 2 ^ p + pow2 (emin - int p)"
proof (cases "x \<noteq> 0 \<and> emin \<le> ilog2 \<bar>x\<bar>")
  case True
  then have "\<bar>fround p emin x - x\<bar> \<le> \<bar>x\<bar> / 2 ^ p" using p by (intro fround_rel_error_normal) simp_all
  moreover have "0 \<le> pow2 (emin - int p)" by simp
  ultimately show ?thesis by linarith
next
  case False
  show ?thesis
  proof (cases "x = 0")
    case True
    then show ?thesis by simp
  next
    case x: False
    then have "\<not> emin \<le> ilog2 \<bar>x\<bar>" using False by simp
    then have e: "fexp p emin x = emin - int p + 1" by (simp add: fexp_def)
    have "pow2 (emin - int p + 1) = 2 * pow2 (emin - int p)" by (rule pow2_Suc)
    then have "pow2 (fexp p emin x) / 2 = pow2 (emin - int p)" by (simp add: e)
    moreover have "0 \<le> \<bar>x\<bar> / 2 ^ p" by simp
    ultimately show ?thesis using fround_error [of p emin x] by linarith
  qed
qed

lemma round_float_rel: "\<bar>round_float z - z\<bar> \<le> \<bar>z\<bar> / 2 ^ 24 + 1 / 2 ^ 150"
  using fround_rel_error [of 24 "- 126" z] by (simp add: round_float_def pow2_numeral)

lemma round_double_rel: "\<bar>round_double y - y\<bar> \<le> \<bar>y\<bar> / 2 ^ 53 + 1 / 2 ^ 1075"
  using fround_rel_error [of 53 "- 1022" y] by (simp add: round_double_def pow2_numeral)

text \<open>The error of a sum that is formed in double and stored in a float.\<close>

lemma store_error:
  assumes "\<bar>y\<bar> \<le> b" "1 \<le> b"
  shows "\<bar>round_float (round_double y) - y\<bar> \<le> b / 2 ^ 23"
proof -
  define z where "z = round_double y"
  have 1: "\<bar>z - y\<bar> \<le> \<bar>y\<bar> / 2 ^ 53 + 1 / 2 ^ 1075" unfolding z_def by (rule round_double_rel)
  have 2: "\<bar>round_float z - z\<bar> \<le> \<bar>z\<bar> / 2 ^ 24 + 1 / 2 ^ 150" by (rule round_float_rel)
  have 3: "\<bar>z\<bar> \<le> \<bar>y\<bar> + \<bar>z - y\<bar>" by linarith
  have "\<bar>round_float z - y\<bar> \<le> \<bar>round_float z - z\<bar> + \<bar>z - y\<bar>" by linarith
  then show ?thesis unfolding z_def [symmetric] using 1 2 3 assms by simp
qed

lemma FLT_MAX_eq: "FLT_MAX = of_int (2 ^ 24 - 1) * pow2 104"
  by (simp add: FLT_MAX_def pow2_def)

lemma round_FLT_MAX: "round_float FLT_MAX = FLT_MAX" "round_double FLT_MAX = FLT_MAX"
  unfolding FLT_MAX_eq round_float_def round_double_def
  by (intro fround_exact; simp)+

lemma round_double_above_FLT_MAX: "round_double (FLT_MAX + 1) = FLT_MAX"
proof -
  have "pow2 127 \<le> FLT_MAX + 1" using FLT_MAX_bounds(1) by linarith
  moreover have "FLT_MAX + 1 < pow2 (127 + 1)" by (simp add: FLT_MAX_def pow2_def)
  ultimately have i: "ilog2 (FLT_MAX + 1) = 127" by (rule ilog2_unique)
  have "0 < FLT_MAX + 1" using sixteen_le_max(1) by linarith
  then have e: "fexp 53 (- 1022) (FLT_MAX + 1) = 75" by (simp add: fexp_def i)
  have a: "FLT_MAX = of_int ((2 ^ 24 - 1) * 2 ^ 29) * pow2 (fexp 53 (- 1022) (FLT_MAX + 1))"
    unfolding e by (simp add: FLT_MAX_def pow2_def)
  have "\<bar>FLT_MAX + 1 - FLT_MAX\<bar> < pow2 (fexp 53 (- 1022) (FLT_MAX + 1)) / 2"
    unfolding e by (simp add: pow2_def)
  with a show ?thesis unfolding round_double_def by (rule fround_near)
qed

text \<open>Adding a boost in [0, 1] to a float and storing the sum never overflows.\<close>

lemma boost_float:
  assumes c: "is_float (Val c)" and x: "0 \<le> x" "x \<le> 1"
  shows "to_float (d_add (Val c) (Val x)) = Val (round_float (round_double (c + x)))"
proof -
  have c': "\<bar>c\<bar> \<le> FLT_MAX" using c by (simp add: is_float_Val)
  have "round_double (c + x) \<le> round_double (FLT_MAX + 1)"
    using c' x by (intro round_double_mono) linarith
  then have u: "round_double (c + x) \<le> FLT_MAX" by (simp add: round_double_above_FLT_MAX)
  have "round_double (- FLT_MAX) \<le> round_double (c + x)"
    using c' x by (intro round_double_mono) linarith
  then have l: "- FLT_MAX \<le> round_double (c + x)"
    by (simp add: round_double_def fround_minus round_FLT_MAX(2) [unfolded round_double_def])
  from u l have d: "\<bar>round_double (c + x)\<bar> \<le> FLT_MAX" by linarith
  then have "\<bar>round_double (c + x)\<bar> \<le> DBL_MAX" using FLT_MAX_le_DBL_MAX by linarith
  then have 1: "d_add (Val c) (Val x) = Val (round_double (c + x))"
    by (simp add: d_add_def double_of_real_def overflow_Val)
  have "\<bar>round_float (round_double (c + x))\<bar> \<le> FLT_MAX"
    unfolding round_float_def using d round_FLT_MAX(1) [unfolded round_float_def]
    by (intro fround_abs_le) simp_all
  then show ?thesis by (simp add: 1 float_of_real_def overflow_Val)
qed

lemma palette_float:
  assumes t: "0 \<le> t" "t < 2 ^ 63 - 1" and c: "is_float (Val c)"
  defines "f \<equiv> t - of_int \<lfloor>t\<rfloor>"
  defines "hi \<equiv> round_float (round_double (c + round_double (1 - f)))"
    and "lo \<equiv> round_float (round_double (c + f))"
  shows "rainbow_palette (Val t) (Val c) =
     Return (if \<lfloor>t\<rfloor> mod 3 = 0 then [Val hi, Val lo, Val c]
             else if \<lfloor>t\<rfloor> mod 3 = 1 then [Val c, Val hi, Val lo]
             else [Val lo, Val c, Val hi])"
proof -
  define n where "n = \<lfloor>t\<rfloor>"
  note a = long_of_double_nonneg [OF t, folded n_def]
  have add: "long_add n 1 = Return (n + 1)"
    using a by (simp add: long_add_def in_long_def LONG_MIN_def LONG_MAX_def)
  have fm: "fmod (Val t) (Val 1) = Val f"
    using t by (simp add: fmod_one trunc_nonneg f_def)
  have f: "0 \<le> f" "f < 1" unfolding f_def by linarith+
  have "\<bar>1 - f\<bar> \<le> 16" using f by simp
  then have sub: "d_sub (Val 1) (Val f) = Val (round_double (1 - f))"
    by (simp add: d_sub_def d_add_def double_of_real_small)
  have x1: "0 \<le> round_double (1 - f)" "round_double (1 - f) \<le> 1"
    using f by (simp_all add: round_double_unit)
  have bhi: "to_float (d_add (Val c) (Val (round_double (1 - f)))) = Val hi"
    unfolding hi_def using c x1 by (rule boost_float)
  have blo: "to_float (d_add (Val c) (Val f)) = Val lo"
    unfolding lo_def using c f by (intro boost_float) simp_all
  have r0: "c_rem n 3 = n mod 3" using a by (intro c_rem_nonneg)
  have r1: "c_rem (n + 1) 3 = (n + 1) mod 3" using a by (intro c_rem_nonneg) simp
  consider "n mod 3 = 0" | "n mod 3 = 1" | "n mod 3 = 2"
    using mod3_cases [of n] by blast
  then show ?thesis
  proof cases
    case 1
    then have "(n + 1) mod 3 = 1" by presburger
    then show ?thesis using 1
      by (simp add: rainbow_palette_def a add fm sub r0 r1 palette_add_def bhi blo flip: n_def)
  next
    case 2
    then have "(n + 1) mod 3 = 2" by presburger
    then show ?thesis using 2
      by (simp add: rainbow_palette_def a add fm sub r0 r1 palette_add_def bhi blo flip: n_def)
  next
    case 3
    then have "(n + 1) mod 3 = 0" by presburger
    then show ?thesis using 3
      by (simp add: rainbow_palette_def a add fm sub r0 r1 palette_add_def bhi blo flip: n_def)
  qed
qed

text \<open>An infinite or NaN luminosity stays in every channel.\<close>

lemma palette_nonfinite:
  assumes t: "0 \<le> t" "t < 2 ^ 63 - 1" and L: "L = PosInf \<or> L = NegInf \<or> L = NaN"
  shows "rainbow_palette (Val t) L = Return [L, L, L]"
proof -
  define n where "n = \<lfloor>t\<rfloor>"
  define f where "f = t - of_int n"
  note a = long_of_double_nonneg [OF t, folded n_def]
  have add: "long_add n 1 = Return (n + 1)"
    using a by (simp add: long_add_def in_long_def LONG_MIN_def LONG_MAX_def)
  have fm: "fmod (Val t) (Val 1) = Val f"
    using t by (simp add: fmod_one trunc_nonneg n_def f_def)
  have "0 \<le> f" "f < 1" unfolding f_def n_def by linarith+
  then have "\<bar>1 - f\<bar> \<le> 16" by simp
  then have sub: "d_sub (Val 1) (Val f) = Val (round_double (1 - f))"
    by (simp add: d_sub_def d_add_def double_of_real_small)
  have b: "to_float (d_add L (Val x)) = L" for x
    using L by (auto simp: d_add_def)
  have r0: "c_rem n 3 = n mod 3" using a by (intro c_rem_nonneg)
  have r1: "c_rem (n + 1) 3 = (n + 1) mod 3" using a by (intro c_rem_nonneg) simp
  consider "n mod 3 = 0" | "n mod 3 = 1" | "n mod 3 = 2"
    using mod3_cases [of n] by blast
  then show ?thesis
  proof cases
    case 1
    then have "(n + 1) mod 3 = 1" by presburger
    then show ?thesis using 1
      by (simp add: rainbow_palette_def a add fm sub r0 r1 palette_add_def b)
  next
    case 2
    then have "(n + 1) mod 3 = 2" by presburger
    then show ?thesis using 2
      by (simp add: rainbow_palette_def a add fm sub r0 r1 palette_add_def b)
  next
    case 3
    then have "(n + 1) mod 3 = 0" by presburger
    then show ?thesis using 3
      by (simp add: rainbow_palette_def a add fm sub r0 r1 palette_add_def b)
  qed
qed

text \<open>
  The triple at a time \<open>w\<close> of the unit of time that starts at the integer \<open>m\<close>, its end
  \<open>m + 1\<close> included: there the boost has wholly passed to the next channel.
\<close>

lemma palette_in_unit:
  assumes m: "0 \<le> m" "of_int m + 1 < (2 ^ 63 - 1 :: real)"
    and w: "of_int m \<le> w" "w \<le> of_int m + 1" and c: "is_float (Val c)"
  defines "A \<equiv> round_float (round_double (c + round_double (1 - (w - of_int m))))"
    and "B \<equiv> round_float (round_double (c + (w - of_int m)))"
  shows "rainbow_palette (Val w) (Val c) =
     Return (if m mod 3 = 0 then [Val A, Val B, Val c]
             else if m mod 3 = 1 then [Val c, Val A, Val B]
             else [Val B, Val c, Val A])"
proof (cases "w < of_int m + 1")
  case True
  then have fl: "\<lfloor>w\<rfloor> = m" using w by linarith
  have "0 \<le> w" "w < 2 ^ 63 - 1" using m w by linarith+
  from palette_float [OF this c] show ?thesis by (simp add: fl A_def B_def)
next
  case False
  then have w1: "w = of_int (m + 1)" using w by simp
  have fl: "\<lfloor>w\<rfloor> = m + 1" unfolding w1 by (simp only: floor_of_int)
  have rc: "round_float c = c" using c by (simp add: is_float_Val)
  have A: "A = c" by (simp add: A_def w1 round_int_small rc float_round_double)
  have B: "B = round_float (round_double (c + 1))" by (simp add: B_def w1)
  have "0 \<le> w" "w < 2 ^ 63 - 1" using m w by linarith+
  from palette_float [OF this c]
  have p: "rainbow_palette (Val w) (Val c) =
     Return (if (m + 1) mod 3 = 0 then [Val B, Val c, Val c]
             else if (m + 1) mod 3 = 1 then [Val c, Val B, Val c]
             else [Val c, Val c, Val B])"
    by (simp add: fl w1 B round_int_small rc float_round_double)
  consider "m mod 3 = 0" | "m mod 3 = 1" | "m mod 3 = 2"
    using mod3_cases [of m] by blast
  then show ?thesis
  proof cases
    case 1
    then have "(m + 1) mod 3 = 1" by presburger
    then show ?thesis using 1 by (simp add: p A)
  next
    case 2
    then have "(m + 1) mod 3 = 2" by presburger
    then show ?thesis using 2 by (simp add: p A)
  next
    case 3
    then have "(m + 1) mod 3 = 0" by presburger
    then show ?thesis using 3 by (simp add: p A)
  qed
qed

text \<open>Two boosts in [0, 1] stored on the same float: the channels are as close as the boosts.\<close>

lemma slot_close:
  assumes x: "0 \<le> x" "x \<le> 1" and y: "0 \<le> y" "y \<le> 1"
  shows "\<bar>round_float (round_double (c + x)) - round_float (round_double (c + y))\<bar>
           \<le> \<bar>x - y\<bar> + (\<bar>c\<bar> + 1) / 2 ^ 22"
proof -
  have "\<bar>c + x\<bar> \<le> \<bar>c\<bar> + 1" "\<bar>c + y\<bar> \<le> \<bar>c\<bar> + 1" "1 \<le> \<bar>c\<bar> + 1" using x y by linarith+
  then have "\<bar>round_float (round_double (c + x)) - (c + x)\<bar> \<le> (\<bar>c\<bar> + 1) / 2 ^ 23"
    "\<bar>round_float (round_double (c + y)) - (c + y)\<bar> \<le> (\<bar>c\<bar> + 1) / 2 ^ 23"
    by (intro store_error; simp)+
  moreover have "(\<bar>c\<bar> + 1) / 2 ^ 23 + (\<bar>c\<bar> + 1) / 2 ^ 23 = (\<bar>c\<bar> + 1) / 2 ^ 22" by simp
  ultimately show ?thesis by linarith
qed

lemma unit_close:
  assumes f: "0 \<le> f" "f \<le> 1" and g: "0 \<le> g" "g \<le> 1"
  shows "\<bar>round_float (round_double (c + round_double (1 - f)))
          - round_float (round_double (c + round_double (1 - g)))\<bar> \<le> \<bar>f - g\<bar> + (\<bar>c\<bar> + 1) / 2 ^ 21"
    "\<bar>round_float (round_double (c + f)) - round_float (round_double (c + g))\<bar>
       \<le> \<bar>f - g\<bar> + (\<bar>c\<bar> + 1) / 2 ^ 21"
proof -
  have 1: "0 \<le> round_double (1 - f)" "round_double (1 - f) \<le> 1"
    "0 \<le> round_double (1 - g)" "round_double (1 - g) \<le> 1"
    using f g by (simp_all add: round_double_unit)
  have 2: "\<bar>round_double (1 - f) - (1 - f)\<bar> \<le> 1 / 2 ^ 53" "\<bar>round_double (1 - g) - (1 - g)\<bar> \<le> 1 / 2 ^ 53"
    using f g by (intro round_double_error_2; simp)+
  have t: "(1 / 2 ^ 53 + 1 / 2 ^ 53 :: real) \<le> (\<bar>c\<bar> + 1) / 2 ^ 22"
  proof -
    have "(1 / 2 ^ 53 + 1 / 2 ^ 53 :: real) \<le> 1 / 2 ^ 22" by simp
    also have "\<dots> \<le> (\<bar>c\<bar> + 1) / 2 ^ 22" by (intro divide_right_mono) simp_all
    finally show ?thesis .
  qed
  have h: "(\<bar>c\<bar> + 1) / 2 ^ 22 + (\<bar>c\<bar> + 1) / 2 ^ 22 = (\<bar>c\<bar> + 1) / 2 ^ 21" by simp
  from slot_close [OF 1, of c] 2 t h
  show "\<bar>round_float (round_double (c + round_double (1 - f)))
          - round_float (round_double (c + round_double (1 - g)))\<bar> \<le> \<bar>f - g\<bar> + (\<bar>c\<bar> + 1) / 2 ^ 21"
    by linarith
  have "0 \<le> (\<bar>c\<bar> + 1) / 2 ^ 22" by simp
  with slot_close [OF f g, of c] h
  show "\<bar>round_float (round_double (c + f)) - round_float (round_double (c + g))\<bar>
       \<le> \<bar>f - g\<bar> + (\<bar>c\<bar> + 1) / 2 ^ 21"
    by linarith
qed

lemma fp_close_Val [simp]: "fp_close d (Val x) (Val y) \<longleftrightarrow> \<bar>x - y\<bar> \<le> d"
  by (simp add: fp_close_def)

lemma rounding_tolerance_Val [simp]: "rounding_tolerance (Val c) = (\<bar>c\<bar> + 1) / 2 ^ 21"
  by (simp add: rounding_tolerance_def)

lemma round_double_int: "\<bar>k\<bar> \<le> 2 ^ 53 \<Longrightarrow> round_double (of_int k) = of_int k"
  using fround_exact [of 53 k "- 1022" 0] by (simp add: round_double_def)

text \<open>A shift of the time by 3, the sum being exact.\<close>

lemma palette_shift_3:
  assumes "0 \<le> t" "t + 3 < 2 ^ 63 - 1"
  shows "rainbow_palette (Val (t + 3)) L = rainbow_palette (Val t) L"
proof -
  define n where "n = \<lfloor>t\<rfloor>"
  have t: "0 \<le> t" "t < 2 ^ 63 - 1" using assms by simp_all
  note a = long_of_double_nonneg [OF t, folded n_def]
  have t3: "0 \<le> t + 3" using assms by simp
  have fl: "\<lfloor>t + 3\<rfloor> = n + 3" unfolding n_def by linarith
  note b = long_of_double_nonneg [OF t3 assms(2), unfolded fl]
  have fm: "fmod (Val (t + 3)) (Val 1) = fmod (Val t) (Val 1)"
    using t t3 by (simp add: fmod_one trunc_nonneg fl n_def)
  have add: "long_add n 1 = Return (n + 1)" "long_add (n + 3) 1 = Return (n + 4)"
    using a b by (simp_all add: long_add_def in_long_def LONG_MIN_def LONG_MAX_def)
  have r: "c_rem (n + 3) 3 = c_rem n 3" "c_rem (n + 4) 3 = c_rem (n + 1) 3"
    using a by (simp_all add: c_rem_nonneg) presburger
  have i: "0 \<le> c_rem n 3" "c_rem n 3 < 3" "0 \<le> c_rem (n + 1) 3" "c_rem (n + 1) 3 < 3"
    using a by (simp_all add: c_rem_nonneg)
  obtain p where p: "palette_add [L, L, L] (c_rem n 3) (d_sub (Val 1) (fmod (Val t) (Val 1))) = Return p"
    "length p = 3"
    using palette_add_Return [of "c_rem n 3" "[L, L, L]" "d_sub (Val 1) (fmod (Val t) (Val 1))"] i
    by auto
  obtain q where q: "palette_add p (c_rem (n + 1) 3) (fmod (Val t) (Val 1)) = Return q" "length q = 3"
    using palette_add_Return [of "c_rem (n + 1) 3" p "fmod (Val t) (Val 1)"] i p by auto
  have 1: "rainbow_palette (Val t) L = Return q"
    by (simp add: rainbow_palette_def a add p q)
  have 2: "rainbow_palette (Val (t + 3)) L = Return q"
    by (simp add: rainbow_palette_def b fm add r p q)
  show ?thesis using 1 2 by simp
qed


lemma rd_2_63: "round_double (2 ^ 63 - 1) = 2 ^ 63"
  by (simp add: rounding_defs ilog2.simps)

text \<open>A channel lies between the luminosity and the float for the full boost.\<close>

lemma boost_range:
  assumes c: "round_float c = c" and x: "0 \<le> x" "x \<le> 1"
  shows "c \<le> round_float (round_double (c + x))"
    "round_float (round_double (c + x)) \<le> round_float (round_double (c + 1))"
    "round_float (round_double (c + 1)) - c \<le> 1 + (\<bar>c\<bar> + 1) / 2 ^ 23"
proof -
  have "round_double c \<le> round_double (c + x)" using x by (intro round_double_mono) simp
  then have "round_float (round_double c) \<le> round_float (round_double (c + x))"
    by (rule round_float_mono)
  then show "c \<le> round_float (round_double (c + x))" using c by (simp add: float_round_double)
  have "round_double (c + x) \<le> round_double (c + 1)" using x by (intro round_double_mono) simp
  then show "round_float (round_double (c + x)) \<le> round_float (round_double (c + 1))"
    by (rule round_float_mono)
  have "\<bar>c + 1\<bar> \<le> \<bar>c\<bar> + 1" "1 \<le> \<bar>c\<bar> + 1" by linarith+
  then have "\<bar>round_float (round_double (c + 1)) - (c + 1)\<bar> \<le> (\<bar>c\<bar> + 1) / 2 ^ 23"
    by (rule store_error)
  then show "round_float (round_double (c + 1)) - c \<le> 1 + (\<bar>c\<bar> + 1) / 2 ^ 23" by linarith
qed

lemma palette_range:
  assumes t: "0 \<le> t" "t < 2 ^ 63 - 1" and c: "is_float (Val c)"
  defines "cap \<equiv> round_float (round_double (c + 1))"
  shows "\<exists>r g b. rainbow_palette (Val t) (Val c) = Return [Val r, Val g, Val b]
           \<and> c \<le> r \<and> r \<le> cap \<and> c \<le> g \<and> g \<le> cap \<and> c \<le> b \<and> b \<le> cap"
proof -
  define f where "f = t - of_int \<lfloor>t\<rfloor>"
  define hi where "hi = round_float (round_double (c + round_double (1 - f)))"
  define lo where "lo = round_float (round_double (c + f))"
  have rf: "round_float c = c" using c by (simp add: is_float_Val)
  have f: "0 \<le> f" "f \<le> 1" unfolding f_def by linarith+
  have x: "0 \<le> round_double (1 - f)" "round_double (1 - f) \<le> 1"
    using f by (simp_all add: round_double_unit)
  have h: "c \<le> hi" "hi \<le> cap" unfolding hi_def cap_def using rf x by (rule boost_range)+
  have l: "c \<le> lo" "lo \<le> cap" unfolding lo_def cap_def using rf f by (rule boost_range)+
  have k: "c \<le> cap" using h by linarith
  have p: "rainbow_palette (Val t) (Val c) =
     Return (if \<lfloor>t\<rfloor> mod 3 = 0 then [Val hi, Val lo, Val c]
             else if \<lfloor>t\<rfloor> mod 3 = 1 then [Val c, Val hi, Val lo]
             else [Val lo, Val c, Val hi])"
    unfolding hi_def lo_def f_def using t c by (rule palette_float)
  consider "\<lfloor>t\<rfloor> mod 3 = 0" | "\<lfloor>t\<rfloor> mod 3 = 1" | "\<lfloor>t\<rfloor> mod 3 = 2"
    using mod3_cases [of "\<lfloor>t\<rfloor>"] by blast
  then show ?thesis
  proof cases
    case 1
    then have "rainbow_palette (Val t) (Val c) = Return [Val hi, Val lo, Val c]" using p by simp
    then show ?thesis using h l k by blast
  next
    case 2
    then have "rainbow_palette (Val t) (Val c) = Return [Val c, Val hi, Val lo]" using p by simp
    then show ?thesis using h l k by blast
  next
    case 3
    then have "rainbow_palette (Val t) (Val c) = Return [Val lo, Val c, Val hi]" using p by simp
    then show ?thesis using h l k by blast
  qed
qed

text \<open>Two triples for the same float luminosity: no channel differs by more than a full boost.\<close>

lemma palette_far:
  assumes t: "0 \<le> t" "t < 2 ^ 63 - 1" and s: "0 \<le> s" "s < 2 ^ 63 - 1" and c: "is_float (Val c)"
  shows "\<exists>r g b r' g' b'. rainbow_palette (Val t) (Val c) = Return [Val r, Val g, Val b]
           \<and> rainbow_palette (Val s) (Val c) = Return [Val r', Val g', Val b']
           \<and> \<bar>r' - r\<bar> \<le> 1 + (\<bar>c\<bar> + 1) / 2 ^ 23
           \<and> \<bar>g' - g\<bar> \<le> 1 + (\<bar>c\<bar> + 1) / 2 ^ 23
           \<and> \<bar>b' - b\<bar> \<le> 1 + (\<bar>c\<bar> + 1) / 2 ^ 23"
proof -
  define cap where "cap = round_float (round_double (c + 1))"
  have rf: "round_float c = c" using c by (simp add: is_float_Val)
  have k: "cap - c \<le> 1 + (\<bar>c\<bar> + 1) / 2 ^ 23"
    unfolding cap_def using boost_range(3) [OF rf, of 0] by simp
  from palette_range [OF t c] obtain r g b where
    1: "rainbow_palette (Val t) (Val c) = Return [Val r, Val g, Val b]"
    "c \<le> r" "r \<le> cap" "c \<le> g" "g \<le> cap" "c \<le> b" "b \<le> cap"
    unfolding cap_def by blast
  from palette_range [OF s c] obtain r' g' b' where
    2: "rainbow_palette (Val s) (Val c) = Return [Val r', Val g', Val b']"
    "c \<le> r'" "r' \<le> cap" "c \<le> g'" "g' \<le> cap" "c \<le> b'" "b' \<le> cap"
    unfolding cap_def by blast
  have "\<bar>r' - r\<bar> \<le> 1 + (\<bar>c\<bar> + 1) / 2 ^ 23" "\<bar>g' - g\<bar> \<le> 1 + (\<bar>c\<bar> + 1) / 2 ^ 23"
    "\<bar>b' - b\<bar> \<le> 1 + (\<bar>c\<bar> + 1) / 2 ^ 23"
    using 1 2 k by linarith+
  with 1(1) 2(1) show ?thesis by blast
qed

text \<open>A double above \<open>2 ^ 53\<close> is an integer.\<close>

lemma round_double_integer:
  assumes "2 ^ 53 \<le> u"
  shows "\<exists>k. round_double u = of_int k"
proof -
  have "pow2 53 \<le> u" using assms by (simp add: pow2_numeral)
  moreover have "0 < u" using assms by (simp add: less_le_trans [of 0 "2 ^ 53"])
  ultimately have "pow2 53 \<le> pow2 (ilog2 u + 1)" using ilog2_bounds [of u] by linarith
  then have "53 \<le> ilog2 u + 1" by (simp add: pow2_le_iff)
  then have e: "0 \<le> fexp 53 (- 1022) u" using \<open>0 < u\<close> by (simp add: fexp_def)
  define M where "M = round_half_even (u / pow2 (fexp 53 (- 1022) u))"
  have "round_double u = of_int M * pow2 (fexp 53 (- 1022) u)"
    by (simp add: round_double_def fround_def M_def Let_def)
  also have "\<dots> = of_int (M * 2 ^ nat (fexp 53 (- 1022) u))"
    using pow2_nat [OF e] by simp
  finally show ?thesis by blast
qed

subsection \<open>The colour function: range and sum of the channels\<close>

text \<open>
  Claim C2 says that for every time \<open>t \<ge> 0\<close> and every luminosity \<open>L\<close> in [0.1, 9.9] each
  channel of the computed triple lies in [L, L + 1.0] and the three channels sum to
  3 * L + 1.0. The channels are floats, so the boosted channel is the sum rounded to a
  float. With the luminosity \<^verbatim>\<open>0.1f\<close> (what the argument 0.1 gives) at time 0 the red channel
  is the float that C computes for \<open>L + 1.0\<close>; it lies above the real number \<open>L + 1\<close>, and the
  sum of the channels is not \<open>3 * L + 1\<close>: neither as real numbers nor when both sides are
  computed in float arithmetic (the last five lines).
\<close>

theorem palette_sum_inexact:
  "is_float (Val (13421773 / 134217728))
   \<and> (1 / 10 :: real) \<le> 13421773 / 134217728 \<and> (13421773 / 134217728 :: real) \<le> 99 / 10
   \<and> rainbow_palette (Val 0) (Val (13421773 / 134217728))
       = Return [Val (9227469 / 8388608), Val (13421773 / 134217728), Val (13421773 / 134217728)]
   \<and> (13421773 / 134217728 + 1 :: real) < 9227469 / 8388608
   \<and> (9227469 / 8388608 + 13421773 / 134217728 + 13421773 / 134217728 :: real)
       \<noteq> 3 * (13421773 / 134217728) + 1
   \<and> float_of_real (9227469 / 8388608 + 13421773 / 134217728) = Val (5033165 / 4194304)
   \<and> float_of_real (5033165 / 4194304 + 13421773 / 134217728) = Val (10905191 / 8388608)
   \<and> float_of_real (3 * (13421773 / 134217728)) = Val (5033165 / 16777216)
   \<and> float_of_real (5033165 / 16777216 + 1) = Val (5452595 / 4194304)
   \<and> (10905191 / 8388608 :: real) \<noteq> 5452595 / 4194304"
proof -
  have 1: "is_float (Val (13421773 / 134217728))"
    by (simp add: is_float_def rounding_defs ilog2.simps)
  have 2: "rainbow_palette (Val 0) (Val (13421773 / 134217728))
       = Return [Val (9227469 / 8388608), Val (13421773 / 134217728), Val (13421773 / 134217728)]"
    by (simp add: rainbow_palette_def palette_add_def long_defs d_sub_def d_add_def fmod_def
        rounding_defs ilog2.simps)
  have 3: "float_of_real (9227469 / 8388608 + 13421773 / 134217728) = Val (5033165 / 4194304)"
    "float_of_real (5033165 / 4194304 + 13421773 / 134217728) = Val (10905191 / 8388608)"
    "float_of_real (3 * (13421773 / 134217728)) = Val (5033165 / 16777216)"
    "float_of_real (5033165 / 16777216 + 1) = Val (5452595 / 4194304)"
    by (simp_all add: rounding_defs ilog2.simps)
  from 1 2 3 show ?thesis by simp
qed

text \<open>
  Claim C2 as amended: for every time \<open>0 \<le> t < 2 ^ 63 - 1\<close> (this holds of every double
  below \<open>2 ^ 63\<close>, see \<open>double_below_2_63\<close>) and every float luminosity \<open>L\<close> in
  [0.1, 9.9] the function computes a triple; each channel lies between \<open>L\<close> and the float
  \<open>cap\<close> that C computes for \<open>L + 1.0\<close>, which is within \<open>2 ^ -20\<close> of \<open>L + 1\<close>; and the
  sum of the channels differs from \<open>3 * L + 1\<close> by at most \<open>2 ^ -19\<close>.
\<close>

theorem palette_range_and_sum:
  assumes t: "0 \<le> t" "t < 2 ^ 63 - 1"
    and L: "is_float (Val L)" "1 / 10 \<le> L" "L \<le> 99 / 10"
  shows "\<exists>r g b cap. rainbow_palette (Val t) (Val L) = Return [Val r, Val g, Val b]
           \<and> to_float (d_add (Val L) (Val 1)) = Val cap \<and> \<bar>cap - (L + 1)\<bar> \<le> 1 / 2 ^ 20
           \<and> L \<le> r \<and> r \<le> cap \<and> L \<le> g \<and> g \<le> cap \<and> L \<le> b \<and> b \<le> cap
           \<and> \<bar>r + g + b - (3 * L + 1)\<bar> \<le> 1 / 2 ^ 19"
proof -
  define f where "f = t - of_int \<lfloor>t\<rfloor>"
  define x where "x = round_double (1 - f)"
  define hi where "hi = round_float (round_double (L + x))"
  define lo where "lo = round_float (round_double (L + f))"
  define cap where "cap = round_float (round_double (L + 1))"
  have rf: "round_float L = L" using L(1) by (simp add: is_float_Val)
  have f: "0 \<le> f" "f < 1" unfolding f_def by linarith+
  have x: "0 \<le> x" "x \<le> 1" unfolding x_def using f by (simp_all add: round_double_unit)
  have xe: "\<bar>x - (1 - f)\<bar> \<le> 1 / 2 ^ 53"
    unfolding x_def using f by (intro round_double_error_2) simp
  have pal: "rainbow_palette (Val t) (Val L) =
     Return (if \<lfloor>t\<rfloor> mod 3 = 0 then [Val hi, Val lo, Val L]
             else if \<lfloor>t\<rfloor> mod 3 = 1 then [Val L, Val hi, Val lo]
             else [Val lo, Val L, Val hi])"
    unfolding hi_def lo_def x_def f_def using t L by (intro palette_finite) simp_all
  have capv: "to_float (d_add (Val L) (Val 1)) = Val cap"
    unfolding cap_def using L by (intro boost_small) simp_all
  have h: "L \<le> hi" "hi \<le> cap" "\<bar>hi - (L + x)\<bar> \<le> 1 / 2 ^ 21 + 1 / 2 ^ 50"
    unfolding hi_def cap_def using rf L(2,3) x by (rule boost_bounds)+
  have l: "L \<le> lo" "lo \<le> cap" "\<bar>lo - (L + f)\<bar> \<le> 1 / 2 ^ 21 + 1 / 2 ^ 50"
    unfolding lo_def cap_def using rf L(2,3) f by (intro boost_bounds; simp)+
  have c: "L \<le> cap" "\<bar>cap - (L + 1)\<bar> \<le> 1 / 2 ^ 21 + 1 / 2 ^ 50"
    unfolding cap_def using rf L(2,3) by (intro boost_bounds; simp)+
  have ce: "\<bar>cap - (L + 1)\<bar> \<le> 1 / 2 ^ 20" using c(2) by simp
  have "\<bar>hi + lo + L - (3 * L + 1)\<bar> \<le> \<bar>hi - (L + x)\<bar> + \<bar>lo - (L + f)\<bar> + \<bar>x - (1 - f)\<bar>"
    by linarith
  also have "\<dots> \<le> (1 / 2 ^ 21 + 1 / 2 ^ 50) + (1 / 2 ^ 21 + 1 / 2 ^ 50) + 1 / 2 ^ 53"
    using h(3) l(3) xe by linarith
  also have "\<dots> \<le> 1 / 2 ^ 19" by simp
  finally have s: "\<bar>hi + lo + L - (3 * L + 1)\<bar> \<le> 1 / 2 ^ 19" .
  have intro: "?thesis"
    if "rainbow_palette (Val t) (Val L) = Return [Val r, Val g, Val b]"
      "L \<le> r" "r \<le> cap" "L \<le> g" "g \<le> cap" "L \<le> b" "b \<le> cap"
      "\<bar>r + g + b - (3 * L + 1)\<bar> \<le> 1 / 2 ^ 19" for r g b
    using that capv ce by blast
  consider "\<lfloor>t\<rfloor> mod 3 = 0" | "\<lfloor>t\<rfloor> mod 3 = 1" | "\<lfloor>t\<rfloor> mod 3 = 2"
    using mod3_cases [of "\<lfloor>t\<rfloor>"] by blast
  then show ?thesis
  proof cases
    case 1
    then have "rainbow_palette (Val t) (Val L) = Return [Val hi, Val lo, Val L]"
      using pal by simp
    then show ?thesis using h(1,2) l(1,2) order_refl c(1) s by (rule intro)
  next
    case 2
    then have "rainbow_palette (Val t) (Val L) = Return [Val L, Val hi, Val lo]"
      using pal by simp
    moreover have "L + hi + lo = hi + lo + L" by simp
    ultimately show ?thesis using order_refl c(1) h(1,2) l(1,2) s
      by (intro intro [of L hi lo]) (simp_all only:)
  next
    case 3
    then have "rainbow_palette (Val t) (Val L) = Return [Val lo, Val L, Val hi]"
      using pal by simp
    moreover have "lo + L + hi = hi + lo + L" by simp
    ultimately show ?thesis using l(1,2) order_refl c(1) h(1,2) s
      by (intro intro [of lo L hi]) (simp_all only:)
  qed
qed

theorem palette_range_and_sum_witness:
  "(0 :: real) \<le> 1 / 4 \<and> (1 / 4 :: real) < 2 ^ 63 - 1 \<and> is_float (Val (1 / 2))
   \<and> (1 / 10 :: real) \<le> 1 / 2 \<and> (1 / 2 :: real) \<le> 99 / 10
   \<and> (\<exists>r g b cap. rainbow_palette (Val (1 / 4)) (Val (1 / 2)) = Return [Val r, Val g, Val b]
           \<and> to_float (d_add (Val (1 / 2)) (Val 1)) = Val cap \<and> \<bar>cap - (1 / 2 + 1)\<bar> \<le> 1 / 2 ^ 20
           \<and> 1 / 2 \<le> r \<and> r \<le> cap \<and> 1 / 2 \<le> g \<and> g \<le> cap \<and> 1 / 2 \<le> b \<and> b \<le> cap
           \<and> \<bar>r + g + b - (3 * (1 / 2) + 1)\<bar> \<le> 1 / 2 ^ 19)"
proof -
  have f: "is_float (Val (1 / 2))"
    by (simp add: is_float_def rounding_defs ilog2.simps)
  have "(0 :: real) \<le> 1 / 4" "(1 / 4 :: real) < 2 ^ 63 - 1" "(1 / 10 :: real) \<le> 1 / 2"
    "(1 / 2 :: real) \<le> 99 / 10"
    by simp_all
  from palette_range_and_sum [OF this(1,2) f this(3,4)] f show ?thesis by simp
qed

subsection \<open>The colour function at the boundaries\<close>

text \<open>
  Claim C3 says that for every luminosity \<open>L\<close> the colour function yields exactly
  \<open>(L + 1.0, L, L)\<close> at \<open>t = 0\<close>, \<open>(L, L + 1.0, L)\<close> at \<open>t = 1\<close>, \<open>(L, L, L + 1.0)\<close> at
  \<open>t = 2\<close> and \<open>(L + 0.5, L + 0.5, L)\<close> at \<open>t = 0.5\<close>. The boosted channel is a float. With
  the luminosity \<^verbatim>\<open>0.1f\<close> the sum \<open>L + 1.0\<close>, which the double addition forms exactly, is not
  a float: the red channel at \<open>t = 0\<close> is the float next to it, and so are the red and
  green channels at \<open>t = 0.5\<close> for \<open>L + 0.5\<close>. The same happens at \<open>t = 0\<close> with the default
  luminosity \<^verbatim>\<open>1.0f / 3.0f\<close>.
\<close>

theorem palette_boundary_inexact:
  "is_float (Val (13421773 / 134217728))
   \<and> rainbow_palette (Val 0) (Val (13421773 / 134217728))
       = Return [Val (9227469 / 8388608), Val (13421773 / 134217728), Val (13421773 / 134217728)]
   \<and> d_add (Val (13421773 / 134217728)) (Val 1) = Val (13421773 / 134217728 + 1)
   \<and> (13421773 / 134217728 + 1 :: real) \<noteq> 9227469 / 8388608
   \<and> rainbow_palette (Val (1 / 2)) (Val (13421773 / 134217728))
       = Return [Val (5033165 / 8388608), Val (5033165 / 8388608), Val (13421773 / 134217728)]
   \<and> (13421773 / 134217728 + 1 / 2 :: real) \<noteq> 5033165 / 8388608
   \<and> is_float (Val (11184811 / 33554432))
   \<and> rainbow_palette (Val 0) (Val (11184811 / 33554432))
       = Return [Val (11184811 / 8388608), Val (11184811 / 33554432), Val (11184811 / 33554432)]
   \<and> (11184811 / 33554432 + 1 :: real) \<noteq> 11184811 / 8388608"
proof -
  have 1: "is_float (Val (13421773 / 134217728))" "is_float (Val (11184811 / 33554432))"
    by (simp_all add: is_float_def rounding_defs ilog2.simps)
  have 2: "rainbow_palette (Val 0) (Val (13421773 / 134217728))
       = Return [Val (9227469 / 8388608), Val (13421773 / 134217728), Val (13421773 / 134217728)]"
    "rainbow_palette (Val (1 / 2)) (Val (13421773 / 134217728))
       = Return [Val (5033165 / 8388608), Val (5033165 / 8388608), Val (13421773 / 134217728)]"
    "rainbow_palette (Val 0) (Val (11184811 / 33554432))
       = Return [Val (11184811 / 8388608), Val (11184811 / 33554432), Val (11184811 / 33554432)]"
    by (simp_all add: rainbow_palette_def palette_add_def long_defs d_sub_def d_add_def fmod_def
        rounding_defs ilog2.simps)
  have 3: "d_add (Val (13421773 / 134217728)) (Val 1) = Val (13421773 / 134217728 + 1)"
    by (simp add: d_add_def rounding_defs ilog2.simps)
  from 1 2 3 show ?thesis by simp
qed

text \<open>
  Claim C3 as amended: for every value \<open>L\<close> of type float the colour function yields
  exactly \<open>(s, L, L)\<close> at \<open>t = 0\<close>, \<open>(L, s, L)\<close> at \<open>t = 1\<close>, \<open>(L, L, s)\<close> at \<open>t = 2\<close> and
  \<open>(h, h, L)\<close> at \<open>t = 0.5\<close>, where \<open>s\<close> is the double sum \<open>L + 1.0\<close> converted to float,
  \<open>to_float (d_add L (Val 1))\<close>, and \<open>h\<close> likewise for \<open>L + 0.5\<close>; \<open>s\<close> is the number
  \<open>L + 1\<close> itself whenever that number is a float, and \<open>h\<close> the number \<open>L + 0.5\<close> whenever
  that is one.
\<close>

theorem palette_at_boundaries:
  assumes "is_float L"
  shows "rainbow_palette (Val 0) L = Return [to_float (d_add L (Val 1)), L, L]
       \<and> rainbow_palette (Val 1) L = Return [L, to_float (d_add L (Val 1)), L]
       \<and> rainbow_palette (Val 2) L = Return [L, L, to_float (d_add L (Val 1))]
       \<and> rainbow_palette (Val (1 / 2)) L
           = Return [to_float (d_add L (Val (1 / 2))), to_float (d_add L (Val (1 / 2))), L]
       \<and> (L = Val c \<and> is_float (Val (c + 1)) \<longrightarrow> to_float (d_add L (Val 1)) = Val (c + 1))
       \<and> (L = Val c \<and> is_float (Val (c + 1 / 2))
              \<longrightarrow> to_float (d_add L (Val (1 / 2))) = Val (c + 1 / 2))"
proof -
  note z = store_zero [OF assms]
  have 0: "rainbow_palette (Val 0) L = Return [to_float (d_add L (Val 1)), L, L]"
    by (simp add: rainbow_palette_def palette_add_def long_defs fmod_def d_sub_def z)
       (simp add: d_add_def double_of_real_consts)
  have 1: "rainbow_palette (Val 1) L = Return [L, to_float (d_add L (Val 1)), L]"
    by (simp add: rainbow_palette_def palette_add_def long_defs fmod_def d_sub_def z)
       (simp add: d_add_def double_of_real_consts)
  have 2: "rainbow_palette (Val 2) L = Return [L, L, to_float (d_add L (Val 1))]"
    by (simp add: rainbow_palette_def palette_add_def long_defs fmod_def d_sub_def z)
       (simp add: d_add_def double_of_real_consts)
  have 3: "rainbow_palette (Val (1 / 2)) L
           = Return [to_float (d_add L (Val (1 / 2))), to_float (d_add L (Val (1 / 2))), L]"
    by (simp add: rainbow_palette_def palette_add_def long_defs fmod_def d_sub_def)
       (simp add: d_add_def double_of_real_consts)
  from 0 1 2 3 show ?thesis by (simp add: boost_exact)
qed


theorem palette_at_boundaries_witness:
  "is_float (Val (1 / 2)) \<and> is_float (Val (1 / 2 + 1)) \<and> is_float (Val (1 / 2 + 1 / 2))
   \<and> rainbow_palette (Val 0) (Val (1 / 2)) = Return [Val (3 / 2), Val (1 / 2), Val (1 / 2)]
   \<and> rainbow_palette (Val 1) (Val (1 / 2)) = Return [Val (1 / 2), Val (3 / 2), Val (1 / 2)]
   \<and> rainbow_palette (Val 2) (Val (1 / 2)) = Return [Val (1 / 2), Val (1 / 2), Val (3 / 2)]
   \<and> rainbow_palette (Val (1 / 2)) (Val (1 / 2)) = Return [Val 1, Val 1, Val (1 / 2)]"
proof -
  have f: "is_float (Val (1 / 2))" "is_float (Val (1 / 2 + 1))" "is_float (Val (1 / 2 + 1 / 2))"
    by (simp_all add: is_float_def rounding_defs ilog2.simps)
  from palette_at_boundaries [OF f(1), of "1 / 2"] f show ?thesis by simp
qed

subsection \<open>The colour function: period 3\<close>

text \<open>The double sum \<open>s\<close> of \<open>t + 3.0\<close>, when it can be cast to \<^verbatim>\<open>long\<close>.\<close>

lemma sum_facts:
  assumes t: "0 \<le> t" and rs: "round_double (t + 3) = s" and s: "s < 2 ^ 63 - 1"
  shows "t + 3 < 2 ^ 63 - 1" "3 \<le> s" "s \<le> 2 ^ 63 - 1024" "\<bar>s - (t + 3)\<bar> \<le> (t + 3) / 2 ^ 53"
proof -
  define u where "u = t + 3"
  have u3: "3 \<le> u" using t by (simp add: u_def)
  have rs': "round_double u = s" using rs by (simp add: u_def)
  show u63: "t + 3 < 2 ^ 63 - 1"
  proof (rule ccontr)
    assume "\<not> t + 3 < 2 ^ 63 - 1"
    then have "round_double (2 ^ 63 - 1) \<le> round_double (t + 3)" by (intro round_double_mono) simp
    then show False using rs s rd_2_63 by linarith
  qed
  have "round_double 3 = 3" using round_double_int [of 3] by simp
  moreover have "round_double 3 \<le> round_double u" using u3 by (rule round_double_mono)
  ultimately show "3 \<le> s" using rs' by simp
  have "round_double s = s"
    using fround_idem [of 53 "- 1022" u] rs' by (simp add: round_double_def)
  moreover have "s < 2 ^ 63" using s by simp
  ultimately show "s \<le> 2 ^ 63 - 1024" by (rule double_below_2_63)
  have "pow2 1 \<le> u" "u < pow2 63" using u3 u63 by (simp_all add: pow2_numeral u_def)
  then have "1 \<le> ilog2 u" by (rule ilog2_range)
  then have "- 1022 \<le> ilog2 \<bar>u\<bar>" using u3 by simp
  then have "\<bar>fround 53 (- 1022) u - u\<bar> \<le> \<bar>u\<bar> / 2 ^ 53"
    using u3 by (intro fround_rel_error_normal) simp_all
  then show "\<bar>s - (t + 3)\<bar> \<le> (t + 3) / 2 ^ 53"
    using u3 rs' by (simp add: round_double_def u_def)
qed

text \<open>The sum lies in the unit of time of \<open>t + 3\<close>, its end included, or at least 1 away.\<close>

lemma sum_near_or_far:
  assumes t: "0 \<le> t" and rs: "round_double (t + 3) = s"
  shows "of_int \<lfloor>t + 3\<rfloor> \<le> s \<and> s \<le> of_int \<lfloor>t + 3\<rfloor> + 1 \<or> 1 \<le> \<bar>s - (t + 3)\<bar>"
proof (cases "t + 3 \<le> 2 ^ 53")
  case True
  define u where "u = t + 3"
  define m where "m = \<lfloor>u\<rfloor>"
  have u: "3 \<le> u" "u \<le> 2 ^ 53" using t True by (simp_all add: u_def)
  have rs': "round_double u = s" using rs by (simp add: u_def)
  have m: "of_int m \<le> u" "u < of_int m + 1" unfolding m_def by linarith+
  have m3: "3 \<le> m" using u unfolding m_def by linarith
  have "of_int m \<le> (of_int (2 ^ 53) :: real)" using m(1) u by simp
  then have m53: "m \<le> 2 ^ 53" by (simp only: of_int_le_iff)
  have "round_double (of_int m) \<le> round_double u" using m by (intro round_double_mono)
  then have ms: "of_int m \<le> s" using m3 m53 by (simp add: rs' round_double_int)
  have sm: "s \<le> of_int m + 1"
  proof (cases "u = of_int m")
    case True
    then have "s = of_int m" using m3 m53 rs' by (simp add: round_double_int)
    then show ?thesis by simp
  next
    case False
    then have "of_int m < (of_int (2 ^ 53) :: real)" using m(1) u by simp
    then have "m < 2 ^ 53" by (simp only: of_int_less_iff)
    then have "\<bar>m + 1\<bar> \<le> 2 ^ 53" using m3 by simp
    then have "round_double (of_int (m + 1)) = of_int (m + 1)" by (rule round_double_int)
    moreover have "round_double u \<le> round_double (of_int (m + 1))"
      using m by (intro round_double_mono) simp
    ultimately show ?thesis by (simp add: rs')
  qed
  from ms sm show ?thesis unfolding m_def u_def by blast
next
  case False
  define u where "u = t + 3"
  define m where "m = \<lfloor>u\<rfloor>"
  have "2 ^ 53 \<le> u" using False by (simp add: u_def)
  then obtain k where "round_double u = of_int k" using round_double_integer by blast
  then have k: "s = of_int k" using rs by (simp add: u_def)
  have m: "of_int m \<le> u" "u < of_int m + 1" unfolding m_def by linarith+
  show ?thesis
  proof (cases "k < m")
    case True
    then have "k \<le> m - 1" by simp
    then have "(of_int k :: real) \<le> of_int (m - 1)" by (simp only: of_int_le_iff)
    then have "s \<le> u - 1" using k m by simp
    then show ?thesis unfolding u_def by linarith
  next
    case False
    show ?thesis
    proof (cases "m + 1 < k")
      case True
      then have "m + 2 \<le> k" by simp
      then have "(of_int (m + 2) :: real) \<le> of_int k" by (simp only: of_int_le_iff)
      then have "u + 1 \<le> s" using k m by simp
      then show ?thesis unfolding u_def by linarith
    next
      case F: False
      have "m \<le> k" "k \<le> m + 1" using False F by simp_all
      then have "(of_int m :: real) \<le> of_int k" "(of_int k :: real) \<le> of_int (m + 1)"
        by (simp_all only: of_int_le_iff)
      then show ?thesis using k unfolding m_def u_def by simp
    qed
  qed
qed

lemma shift_close:
  assumes t: "0 \<le> t" and rs: "round_double (t + 3) = s" and s: "s < 2 ^ 63 - 1"
    and fc: "is_float (Val c)"
  shows "\<exists>r g b r' g' b'.
       rainbow_palette (Val t) (Val c) = Return [Val r, Val g, Val b]
     \<and> rainbow_palette (Val s) (Val c) = Return [Val r', Val g', Val b']
     \<and> \<bar>r' - r\<bar> \<le> \<bar>s - (t + 3)\<bar> + (\<bar>c\<bar> + 1) / 2 ^ 21
     \<and> \<bar>g' - g\<bar> \<le> \<bar>s - (t + 3)\<bar> + (\<bar>c\<bar> + 1) / 2 ^ 21
     \<and> \<bar>b' - b\<bar> \<le> \<bar>s - (t + 3)\<bar> + (\<bar>c\<bar> + 1) / 2 ^ 21"
proof -
  define u where "u = t + 3"
  define m where "m = \<lfloor>u\<rfloor>"
  define tol where "tol = (\<bar>c\<bar> + 1) / 2 ^ 21"
  note f = sum_facts [OF t rs s, folded u_def]
  have u3: "3 \<le> u" using t by (simp add: u_def)
  have shift: "rainbow_palette (Val u) (Val c) = rainbow_palette (Val t) (Val c)"
    unfolding u_def using t f(1) [unfolded u_def] by (rule palette_shift_3)
  have s0: "0 \<le> s" using f(2) by simp
  have t1: "t < 2 ^ 63 - 1" using f(1) by (simp add: u_def)
  consider "of_int m \<le> s \<and> s \<le> of_int m + 1" | "1 \<le> \<bar>s - u\<bar>"
    using sum_near_or_far [OF t rs] unfolding m_def u_def by blast
  then show ?thesis
  proof cases
    case 1
    then have ms: "of_int m \<le> s" and sm: "s \<le> of_int m + 1" by simp_all
    have m: "of_int m \<le> u" "u \<le> of_int m + 1" unfolding m_def by linarith+
    have "3 \<le> m" using u3 unfolding m_def by linarith
    then have m0: "0 \<le> m" by simp
    have "of_int m \<le> (2 ^ 63 - 1024 :: real)" using ms f(3) by linarith
    then have m1: "of_int m + 1 < (2 ^ 63 - 1 :: real)" by simp
    define Au where "Au = round_float (round_double (c + round_double (1 - (u - of_int m))))"
    define Bu where "Bu = round_float (round_double (c + (u - of_int m)))"
    define As where "As = round_float (round_double (c + round_double (1 - (s - of_int m))))"
    define Bs where "Bs = round_float (round_double (c + (s - of_int m)))"
    have pu: "rainbow_palette (Val t) (Val c) =
       Return (if m mod 3 = 0 then [Val Au, Val Bu, Val c]
               else if m mod 3 = 1 then [Val c, Val Au, Val Bu]
               else [Val Bu, Val c, Val Au])"
      unfolding Au_def Bu_def shift [symmetric] using m0 m1 m fc by (rule palette_in_unit)
    have ps: "rainbow_palette (Val s) (Val c) =
       Return (if m mod 3 = 0 then [Val As, Val Bs, Val c]
               else if m mod 3 = 1 then [Val c, Val As, Val Bs]
               else [Val Bs, Val c, Val As])"
      unfolding As_def Bs_def using m0 m1 ms sm fc by (rule palette_in_unit)
    have fg: "0 \<le> s - of_int m" "s - of_int m \<le> 1" "0 \<le> u - of_int m" "u - of_int m \<le> 1"
      using ms sm m by simp_all
    have e: "\<bar>(s - of_int m) - (u - of_int m)\<bar> = \<bar>s - u\<bar>" by simp
    have cl: "\<bar>As - Au\<bar> \<le> \<bar>s - u\<bar> + tol" "\<bar>Bs - Bu\<bar> \<le> \<bar>s - u\<bar> + tol"
      unfolding As_def Au_def Bs_def Bu_def tol_def e [symmetric]
      using fg by (rule unit_close)+
    have z: "\<bar>c - c\<bar> \<le> \<bar>s - u\<bar> + tol" by (simp add: tol_def)
    have intro: "?thesis"
      if "rainbow_palette (Val t) (Val c) = Return [Val r, Val g, Val b]"
         "rainbow_palette (Val s) (Val c) = Return [Val r', Val g', Val b']"
         "\<bar>r' - r\<bar> \<le> \<bar>s - u\<bar> + tol" "\<bar>g' - g\<bar> \<le> \<bar>s - u\<bar> + tol" "\<bar>b' - b\<bar> \<le> \<bar>s - u\<bar> + tol"
      for r g b r' g' b'
      using that unfolding u_def tol_def by blast
    consider "m mod 3 = 0" | "m mod 3 = 1" | "m mod 3 = 2" using mod3_cases [of m] by blast
    then show ?thesis
    proof cases
      case 1
      have "rainbow_palette (Val t) (Val c) = Return [Val Au, Val Bu, Val c]"
        "rainbow_palette (Val s) (Val c) = Return [Val As, Val Bs, Val c]"
        using pu ps 1 by simp_all
      then show ?thesis using cl(1) cl(2) z by (rule intro)
    next
      case 2
      have "rainbow_palette (Val t) (Val c) = Return [Val c, Val Au, Val Bu]"
        "rainbow_palette (Val s) (Val c) = Return [Val c, Val As, Val Bs]"
        using pu ps 2 by simp_all
      then show ?thesis using z cl(1) cl(2) by (rule intro)
    next
      case 3
      have "rainbow_palette (Val t) (Val c) = Return [Val Bu, Val c, Val Au]"
        "rainbow_palette (Val s) (Val c) = Return [Val Bs, Val c, Val As]"
        using pu ps 3 by simp_all
      then show ?thesis using cl(2) z cl(1) by (rule intro)
    qed
  next
    case 2
    from palette_far [OF t t1 s0 s fc] obtain r g b r' g' b' where
      p: "rainbow_palette (Val t) (Val c) = Return [Val r, Val g, Val b]"
         "rainbow_palette (Val s) (Val c) = Return [Val r', Val g', Val b']"
      and e: "\<bar>r' - r\<bar> \<le> 1 + (\<bar>c\<bar> + 1) / 2 ^ 23" "\<bar>g' - g\<bar> \<le> 1 + (\<bar>c\<bar> + 1) / 2 ^ 23"
         "\<bar>b' - b\<bar> \<le> 1 + (\<bar>c\<bar> + 1) / 2 ^ 23"
      by blast
    have q: "(\<bar>c\<bar> + 1) / 2 ^ 21 = 4 * ((\<bar>c\<bar> + 1) / 2 ^ 23)" "0 \<le> (\<bar>c\<bar> + 1) / 2 ^ 23"
      by simp_all
    have "\<bar>r' - r\<bar> \<le> \<bar>s - (t + 3)\<bar> + (\<bar>c\<bar> + 1) / 2 ^ 21"
      "\<bar>g' - g\<bar> \<le> \<bar>s - (t + 3)\<bar> + (\<bar>c\<bar> + 1) / 2 ^ 21"
      "\<bar>b' - b\<bar> \<le> \<bar>s - (t + 3)\<bar> + (\<bar>c\<bar> + 1) / 2 ^ 21"
      using e q 2 unfolding u_def by linarith+
    with p show ?thesis by blast
  qed
qed

lemma period_example:
  "d_add (Val (2 ^ 53)) (Val 3) = Val (2 ^ 53 + 4)"
  "rainbow_palette (Val (2 ^ 53)) (Val (1 / 2)) = Return [Val (1 / 2), Val (1 / 2), Val (3 / 2)]"
  "rainbow_palette (Val (2 ^ 53 + 4)) (Val (1 / 2)) = Return [Val (3 / 2), Val (1 / 2), Val (1 / 2)]"
  "d_add (Val (1 / 4)) (Val 3) = Val (13 / 4)"
  "is_float (Val (1 / 2))"
  by (simp_all add: is_float_def rainbow_palette_def palette_add_def long_defs d_sub_def d_add_def
      fmod_def rounding_defs ilog2.simps)

text \<open>
  Claim C4 says that for every \<open>t \<ge> 0\<close> and every luminosity the triple computed at time
  \<open>t\<close> equals the triple computed at time \<open>t + 3\<close>. The time is a double, and so is the
  sum \<^verbatim>\<open>t + 3.0\<close>. At the double \<open>t = 2 ^ 53\<close> the sum is \<open>2 ^ 53 + 4\<close>: the whole boost is
  on the blue channel at \<open>t\<close> and on the red channel at the sum. At the double
  \<open>t = 2 ^ -25 + 2 ^ -53\<close> the sum is \<open>3 + 2 ^ -25\<close>, and the green channels of the two
  triples differ by the last bit of a float. The luminosity is 0.5 in both.
\<close>

theorem palette_not_periodic:
  "round_double (2 ^ 53) = 2 ^ 53
   \<and> d_add (Val (2 ^ 53)) (Val 3) = Val (2 ^ 53 + 4)
   \<and> rainbow_palette (Val (2 ^ 53)) (Val (1 / 2)) = Return [Val (1 / 2), Val (1 / 2), Val (3 / 2)]
   \<and> rainbow_palette (Val (2 ^ 53 + 4)) (Val (1 / 2)) = Return [Val (3 / 2), Val (1 / 2), Val (1 / 2)]
   \<and> round_double (1 / 2 ^ 25 + 1 / 2 ^ 53) = 1 / 2 ^ 25 + 1 / 2 ^ 53
   \<and> d_add (Val (1 / 2 ^ 25 + 1 / 2 ^ 53)) (Val 3) = Val (3 + 1 / 2 ^ 25)
   \<and> rainbow_palette (Val (1 / 2 ^ 25 + 1 / 2 ^ 53)) (Val (1 / 2))
       = Return [Val (3 / 2), Val (1 / 2 + 1 / 2 ^ 24), Val (1 / 2)]
   \<and> rainbow_palette (Val (3 + 1 / 2 ^ 25)) (Val (1 / 2)) = Return [Val (3 / 2), Val (1 / 2), Val (1 / 2)]"
proof -
  have 1: "round_double (2 ^ 53) = 2 ^ 53"
    using round_double_int [of "2 ^ 53"] by simp
  have 4: "round_double (1 / 2 ^ 25 + 1 / 2 ^ 53) = 1 / 2 ^ 25 + 1 / 2 ^ 53"
    by (simp add: rounding_defs ilog2.simps)
  have 5: "d_add (Val (1 / 2 ^ 25 + 1 / 2 ^ 53)) (Val 3) = Val (3 + 1 / 2 ^ 25)"
    by (simp add: d_add_def rounding_defs ilog2.simps)
  have 6: "rainbow_palette (Val (1 / 2 ^ 25 + 1 / 2 ^ 53)) (Val (1 / 2))
       = Return [Val (3 / 2), Val (1 / 2 + 1 / 2 ^ 24), Val (1 / 2)]"
    "rainbow_palette (Val (3 + 1 / 2 ^ 25)) (Val (1 / 2)) = Return [Val (3 / 2), Val (1 / 2), Val (1 / 2)]"
    by (simp_all add: rainbow_palette_def palette_add_def long_defs d_sub_def d_add_def fmod_def
        rounding_defs ilog2.simps)
  from 1 period_example(1,2,3) 4 5 6 show ?thesis by (simp only: simp_thms)
qed

text \<open>
  Claim C4 as amended: for every time \<open>t \<ge> 0\<close> and every float luminosity \<open>L\<close>, when the
  double \<open>s\<close> that C computes for \<^verbatim>\<open>t + 3.0\<close> is below \<open>2 ^ 63 - 1\<close> (so that it can be cast
  to \<^verbatim>\<open>long\<close>), the function computes a triple at \<open>t\<close> and at \<open>s\<close>; \<open>s\<close> is within
  \<open>(t + 3) / 2 ^ 53\<close> of \<open>t + 3\<close>; each channel at \<open>s\<close> differs from the same channel at \<open>t\<close>
  by at most the error \<open>\<bar>s - (t + 3)\<bar>\<close> of the sum and the rounding tolerance
  \<open>(\<bar>L\<bar> + 1) / 2 ^ 21\<close> of the channel (an infinite or NaN luminosity gives the same
  channels); and when the sum is exact the two triples are equal.
\<close>

theorem palette_periodic:
  assumes t: "0 \<le> t" and sum: "d_add (Val t) (Val 3) = Val s" and s: "s < 2 ^ 63 - 1"
    and L: "is_float L"
  shows "\<bar>s - (t + 3)\<bar> \<le> (t + 3) / 2 ^ 53
     \<and> (\<exists>r g b r' g' b'.
           rainbow_palette (Val t) L = Return [r, g, b]
         \<and> rainbow_palette (Val s) L = Return [r', g', b']
         \<and> fp_close (\<bar>s - (t + 3)\<bar> + rounding_tolerance L) r' r
         \<and> fp_close (\<bar>s - (t + 3)\<bar> + rounding_tolerance L) g' g
         \<and> fp_close (\<bar>s - (t + 3)\<bar> + rounding_tolerance L) b' b
         \<and> (s = t + 3 \<longrightarrow> r' = r \<and> g' = g \<and> b' = b))"
proof -
  have rs: "round_double (t + 3) = s"
    using sum by (simp add: d_add_def double_of_real_def overflow_eq_Val)
  note f = sum_facts [OF t rs s]
  have ex: "r' = r \<and> g' = g \<and> b' = b"
    if "rainbow_palette (Val t) L = Return [r, g, b]" "rainbow_palette (Val s) L = Return [r', g', b']"
       "s = t + 3" for r g b r' g' b'
    using that palette_shift_3 [OF t f(1), of L] by simp
  have "\<exists>r g b r' g' b'.
           rainbow_palette (Val t) L = Return [r, g, b]
         \<and> rainbow_palette (Val s) L = Return [r', g', b']
         \<and> fp_close (\<bar>s - (t + 3)\<bar> + rounding_tolerance L) r' r
         \<and> fp_close (\<bar>s - (t + 3)\<bar> + rounding_tolerance L) g' g
         \<and> fp_close (\<bar>s - (t + 3)\<bar> + rounding_tolerance L) b' b"
  proof (cases "\<exists>c. L = Val c")
    case False
    then have nf: "L = PosInf \<or> L = NegInf \<or> L = NaN" by (cases L) simp_all
    have "0 \<le> s" using f(2) by simp
    then have 1: "rainbow_palette (Val s) L = Return [L, L, L]"
      using s nf by (rule palette_nonfinite)
    have "t < 2 ^ 63 - 1" using f(1) by simp
    with t have 2: "rainbow_palette (Val t) L = Return [L, L, L]"
      using nf by (rule palette_nonfinite)
    have "fp_close d L L" for d using nf by (auto simp: fp_close_def)
    with 1 2 show ?thesis by blast
  next
    case True
    then obtain c where Lc: "L = Val c" by blast
    have fc: "is_float (Val c)" using L Lc by simp
    from shift_close [OF t rs s fc] obtain r g b r' g' b' where
      p: "rainbow_palette (Val t) L = Return [Val r, Val g, Val b]"
         "rainbow_palette (Val s) L = Return [Val r', Val g', Val b']"
      and e: "\<bar>r' - r\<bar> \<le> \<bar>s - (t + 3)\<bar> + (\<bar>c\<bar> + 1) / 2 ^ 21"
         "\<bar>g' - g\<bar> \<le> \<bar>s - (t + 3)\<bar> + (\<bar>c\<bar> + 1) / 2 ^ 21"
         "\<bar>b' - b\<bar> \<le> \<bar>s - (t + 3)\<bar> + (\<bar>c\<bar> + 1) / 2 ^ 21"
      unfolding Lc by blast
    have "fp_close (\<bar>s - (t + 3)\<bar> + rounding_tolerance L) (Val r') (Val r)"
      "fp_close (\<bar>s - (t + 3)\<bar> + rounding_tolerance L) (Val g') (Val g)"
      "fp_close (\<bar>s - (t + 3)\<bar> + rounding_tolerance L) (Val b') (Val b)"
      using e by (simp_all add: Lc)
    with p show ?thesis by blast
  qed
  then obtain r g b r' g' b' where
    p: "rainbow_palette (Val t) L = Return [r, g, b]" "rainbow_palette (Val s) L = Return [r', g', b']"
    and c: "fp_close (\<bar>s - (t + 3)\<bar> + rounding_tolerance L) r' r"
       "fp_close (\<bar>s - (t + 3)\<bar> + rounding_tolerance L) g' g"
       "fp_close (\<bar>s - (t + 3)\<bar> + rounding_tolerance L) b' b"
    by blast
  have "s = t + 3 \<longrightarrow> r' = r \<and> g' = g \<and> b' = b" using ex [OF p] by blast
  with p c f(4) show ?thesis by blast
qed

theorem palette_periodic_witness:
  "(0 :: real) \<le> 1 / 4 \<and> d_add (Val (1 / 4)) (Val 3) = Val (13 / 4)
   \<and> (13 / 4 :: real) < 2 ^ 63 - 1 \<and> is_float (Val (1 / 2)) \<and> (13 / 4 :: real) = 1 / 4 + 3
   \<and> rainbow_palette (Val (13 / 4)) (Val (1 / 2)) = rainbow_palette (Val (1 / 4)) (Val (1 / 2))
   \<and> (\<exists>r g b. rainbow_palette (Val (1 / 4)) (Val (1 / 2)) = Return [r, g, b])
   \<and> (0 :: real) \<le> 2 ^ 53 \<and> d_add (Val (2 ^ 53)) (Val 3) = Val (2 ^ 53 + 4)
   \<and> (2 ^ 53 + 4 :: real) < 2 ^ 63 - 1
   \<and> \<bar>2 ^ 53 + 4 - (2 ^ 53 + 3)\<bar> \<le> (2 ^ 53 + 3 :: real) / 2 ^ 53
   \<and> fp_close (\<bar>2 ^ 53 + 4 - (2 ^ 53 + 3)\<bar> + rounding_tolerance (Val (1 / 2))) (Val (3 / 2)) (Val (1 / 2))"
proof -
  have h: "(0 :: real) \<le> 1 / 4" "(13 / 4 :: real) < 2 ^ 63 - 1" "(13 / 4 :: real) = 1 / 4 + 3"
    "(0 :: real) \<le> 2 ^ 53" "(2 ^ 53 + 4 :: real) < 2 ^ 63 - 1"
    by simp_all
  from palette_periodic [OF h(1) period_example(4) h(2) period_example(5)]
  obtain r g b r' g' b' where
    1: "rainbow_palette (Val (1 / 4)) (Val (1 / 2)) = Return [r, g, b]"
    and 2: "rainbow_palette (Val (13 / 4)) (Val (1 / 2)) = Return [r', g', b']"
    and 3: "13 / 4 = 1 / 4 + (3 :: real) \<longrightarrow> r' = r \<and> g' = g \<and> b' = b"
    by blast
  have "r' = r \<and> g' = g \<and> b' = b" using 3 h(3) by blast
  then have a: "rainbow_palette (Val (13 / 4)) (Val (1 / 2)) = rainbow_palette (Val (1 / 4)) (Val (1 / 2))"
    using 1 2 by simp
  from palette_periodic [OF h(4) period_example(1) h(5) period_example(5)]
  obtain r g b r' g' b' where
    4: "\<bar>2 ^ 53 + 4 - (2 ^ 53 + 3)\<bar> \<le> (2 ^ 53 + 3 :: real) / 2 ^ 53"
    and 5: "rainbow_palette (Val (2 ^ 53)) (Val (1 / 2)) = Return [r, g, b]"
    and 6: "rainbow_palette (Val (2 ^ 53 + 4)) (Val (1 / 2)) = Return [r', g', b']"
    and 7: "fp_close (\<bar>2 ^ 53 + 4 - (2 ^ 53 + 3)\<bar> + rounding_tolerance (Val (1 / 2))) r' r"
    by blast
  have "r = Val (1 / 2)" "r' = Val (3 / 2)" using 5 6 period_example(2,3) by simp_all
  then have b: "fp_close (\<bar>2 ^ 53 + 4 - (2 ^ 53 + 3)\<bar> + rounding_tolerance (Val (1 / 2)))
      (Val (3 / 2)) (Val (1 / 2))"
    using 7 by simp
  from h period_example(1,4,5) a 1 4 b show ?thesis by blast
qed

subsection \<open>The colour function: continuity at the integer times\<close>

lemma palette_at_integer:
  assumes n: "0 \<le> n" "of_int n < (2 ^ 63 - 1 :: real)" and L: "is_float (Val L)"
  shows "rainbow_palette (Val (of_int n)) (Val L) =
     Return (if n mod 3 = 0 then [Val (round_float (round_double (L + 1))), Val L, Val L]
             else if n mod 3 = 1 then [Val L, Val (round_float (round_double (L + 1))), Val L]
             else [Val L, Val L, Val (round_float (round_double (L + 1)))])"
proof -
  have "rainbow_palette (Val (of_int n)) (Val L) =
     Return (if \<lfloor>of_int n :: real\<rfloor> mod 3 = 0
             then [Val (round_float (round_double (L + round_double (1 - (of_int n - of_int \<lfloor>of_int n :: real\<rfloor>))))),
                   Val (round_float (round_double (L + (of_int n - of_int \<lfloor>of_int n :: real\<rfloor>)))), Val L]
             else if \<lfloor>of_int n :: real\<rfloor> mod 3 = 1
             then [Val L, Val (round_float (round_double (L + round_double (1 - (of_int n - of_int \<lfloor>of_int n :: real\<rfloor>))))),
                   Val (round_float (round_double (L + (of_int n - of_int \<lfloor>of_int n :: real\<rfloor>))))]
             else [Val (round_float (round_double (L + (of_int n - of_int \<lfloor>of_int n :: real\<rfloor>)))), Val L,
                   Val (round_float (round_double (L + round_double (1 - (of_int n - of_int \<lfloor>of_int n :: real\<rfloor>)))))])"
    using n L by (intro palette_float) simp_all
  moreover have "round_float (round_double L) = L" using L by (simp add: is_float_Val float_round_double)
  ultimately show ?thesis using mod3_cases [of n] by (auto simp: round_int_small)
qed

lemma palette_before_integer:
  assumes n: "0 < n" "of_int n < (2 ^ 63 - 1 :: real)"
    and t: "of_int n - 1 \<le> t" "t < of_int n"
    and L: "is_float (Val L)"
  defines "hi \<equiv> round_float (round_double (L + round_double (of_int n - t)))"
    and "lo \<equiv> round_float (round_double (L + (1 - (of_int n - t))))"
  shows "rainbow_palette (Val t) (Val L) =
     Return (if n mod 3 = 1 then [Val hi, Val lo, Val L]
             else if n mod 3 = 2 then [Val L, Val hi, Val lo]
             else [Val lo, Val L, Val hi])"
proof -
  have fl: "\<lfloor>t\<rfloor> = n - 1" using t by (intro floor_unique) simp_all
  have t0: "0 \<le> t" "t < 2 ^ 63 - 1" using n t by simp_all
  have f: "1 - (t - of_int \<lfloor>t\<rfloor>) = of_int n - t" "t - of_int \<lfloor>t\<rfloor> = 1 - (of_int n - t)"
    by (simp_all add: fl)
  have "rainbow_palette (Val t) (Val L) =
     Return (if \<lfloor>t\<rfloor> mod 3 = 0
             then [Val (round_float (round_double (L + round_double (1 - (t - of_int \<lfloor>t\<rfloor>))))),
                   Val (round_float (round_double (L + (t - of_int \<lfloor>t\<rfloor>)))), Val L]
             else if \<lfloor>t\<rfloor> mod 3 = 1
             then [Val L, Val (round_float (round_double (L + round_double (1 - (t - of_int \<lfloor>t\<rfloor>))))),
                   Val (round_float (round_double (L + (t - of_int \<lfloor>t\<rfloor>))))]
             else [Val (round_float (round_double (L + (t - of_int \<lfloor>t\<rfloor>)))), Val L,
                   Val (round_float (round_double (L + round_double (1 - (t - of_int \<lfloor>t\<rfloor>)))))])"
    using t0 L by (rule palette_float)
  then have p: "rainbow_palette (Val t) (Val L) =
     Return (if (n - 1) mod 3 = 0 then [Val hi, Val lo, Val L]
             else if (n - 1) mod 3 = 1 then [Val L, Val hi, Val lo]
             else [Val lo, Val L, Val hi])"
    unfolding f(1) unfolding f(2) hi_def lo_def by (simp only: fl)
  have "(n - 1) mod 3 = 0 \<longleftrightarrow> n mod 3 = 1" "(n - 1) mod 3 = 1 \<longleftrightarrow> n mod 3 = 2"
    by presburger+
  then show ?thesis using p by simp
qed

text \<open>The two moving channels just before an integer time, for any float luminosity.\<close>

lemma handoff_float:
  assumes c: "round_float c = c" and d: "0 < d" "d \<le> 1"
  shows "\<bar>round_float (round_double (c + round_double d)) - c\<bar> \<le> d + (\<bar>c\<bar> + 1) / 2 ^ 21"
    "\<bar>round_float (round_double (c + (1 - d))) - round_float (round_double (c + 1))\<bar>
       \<le> d + (\<bar>c\<bar> + 1) / 2 ^ 21"
proof -
  have "round_float (round_double (c + round_double (1 - 1))) = c"
    using c by (simp add: round_int_small float_round_double)
  moreover have "\<bar>(1 - d) - 1\<bar> = d" using d by simp
  moreover have "round_double (1 - (1 - d)) = round_double d" by simp
  ultimately show "\<bar>round_float (round_double (c + round_double d)) - c\<bar> \<le> d + (\<bar>c\<bar> + 1) / 2 ^ 21"
    using unit_close(1) [of "1 - d" 1 c] d by simp
  show "\<bar>round_float (round_double (c + (1 - d))) - round_float (round_double (c + 1))\<bar>
       \<le> d + (\<bar>c\<bar> + 1) / 2 ^ 21"
    using unit_close(2) [of "1 - d" 1 c] d by simp
qed


text \<open>
  The two moving channels just before an integer time, \<open>d\<close> being the time left, for a
  luminosity in [0.1, 9.9].
\<close>

lemma handoff_bounds:
  assumes L: "round_float L = L" "1 / 10 \<le> L" "L \<le> 99 / 10" and d: "0 < d" "d \<le> 1"
  defines "hi \<equiv> round_float (round_double (L + round_double d))"
    and "lo \<equiv> round_float (round_double (L + (1 - d)))"
    and "cap \<equiv> round_float (round_double (L + 1))"
  shows "\<bar>hi - L\<bar> \<le> d + 1 / 2 ^ 19" "\<bar>lo - cap\<bar> \<le> d + 1 / 2 ^ 19"
proof -
  have x: "0 \<le> round_double d" "round_double d \<le> 1"
    using d by (simp_all add: round_double_unit)
  have xe: "\<bar>round_double d - d\<bar> \<le> 1 / 2 ^ 53"
    using d by (intro round_double_error_2) simp
  have h: "\<bar>hi - (L + round_double d)\<bar> \<le> 1 / 2 ^ 21 + 1 / 2 ^ 50"
    unfolding hi_def using L x by (rule boost_bounds)
  have l: "\<bar>lo - (L + (1 - d))\<bar> \<le> 1 / 2 ^ 21 + 1 / 2 ^ 50"
    unfolding lo_def using L d by (intro boost_bounds) simp_all
  have c: "\<bar>cap - (L + 1)\<bar> \<le> 1 / 2 ^ 21 + 1 / 2 ^ 50"
    unfolding cap_def using L by (intro boost_bounds) simp_all
  have "\<bar>hi - L\<bar> \<le> \<bar>hi - (L + round_double d)\<bar> + \<bar>round_double d - d\<bar> + d"
    using d by linarith
  also have "\<dots> \<le> (1 / 2 ^ 21 + 1 / 2 ^ 50) + 1 / 2 ^ 53 + d" using h xe by linarith
  also have "\<dots> \<le> d + 1 / 2 ^ 19" by simp
  finally show "\<bar>hi - L\<bar> \<le> d + 1 / 2 ^ 19" .
  have "\<bar>lo - cap\<bar> \<le> \<bar>lo - (L + (1 - d))\<bar> + \<bar>cap - (L + 1)\<bar> + d"
    using d by linarith
  also have "\<dots> \<le> (1 / 2 ^ 21 + 1 / 2 ^ 50) + (1 / 2 ^ 21 + 1 / 2 ^ 50) + d" using l c by linarith
  also have "\<dots> \<le> d + 1 / 2 ^ 19" by simp
  finally show "\<bar>lo - cap\<bar> \<le> d + 1 / 2 ^ 19" .
qed

lemma double_below_2:
  assumes "round_double t = t" "1 \<le> t" "t < 2"
  shows "t \<le> 2 - 1 / 2 ^ 52"
proof -
  have "pow2 0 \<le> t" "t < pow2 (0 + 1)" using assms by simp_all
  then have i: "ilog2 t = 0" by (rule ilog2_unique)
  have e: "fexp 53 (- 1022) t = - 52" using assms(2) by (simp add: fexp_def i)
  define m where "m = round_half_even (t / pow2 (- 52))"
  have t: "t = of_int m / 2 ^ 52"
    using assms(1) by (simp add: round_double_def fround_def e m_def) (simp add: pow2_def)
  then have "of_int m < (of_int (2 ^ 53) :: real)" using assms(3) by simp
  then have "m < 2 ^ 53" by (simp only: of_int_less_iff)
  then have "m \<le> 2 ^ 53 - 1" by simp
  then have "of_int m \<le> (of_int (2 ^ 53 - 1) :: real)" by (simp only: of_int_le_iff)
  then show ?thesis using t by simp
qed

lemma handoff_example:
  "is_float (Val (8388611 / 16777216))"
  "rainbow_palette (Val 2) (Val (8388611 / 16777216))
     = Return [Val (8388611 / 16777216), Val (8388611 / 16777216), Val (6291457 / 4194304)]"
  "rainbow_palette (Val (2 - 1 / 2 ^ 52)) (Val (8388611 / 16777216))
     = Return [Val (8388611 / 16777216), Val (8388611 / 16777216), Val (12582913 / 8388608)]"
  "round_float (round_double (8388611 / 16777216 + (1 - 1 / 2 ^ 52))) = 12582913 / 8388608"
  by (simp_all add: is_float_def rainbow_palette_def palette_add_def long_defs d_sub_def d_add_def
      fmod_def rounding_defs ilog2.simps)

text \<open>No double before 2 brings the blue channel nearer to its value at 2.\<close>

lemma handoff_gap:
  assumes "round_double t = t" "1 \<le> t" "t < 2"
  shows "\<exists>r g b. rainbow_palette (Val t) (Val (8388611 / 16777216)) = Return [Val r, Val g, Val b]
           \<and> b \<le> 12582913 / 8388608"
proof -
  define lo where "lo = round_float (round_double (8388611 / 16777216 + (1 - (of_int 2 - t))))"
  have "rainbow_palette (Val t) (Val (8388611 / 16777216)) =
     Return (if (2 :: int) mod 3 = 1
             then [Val (round_float (round_double (8388611 / 16777216 + round_double (of_int 2 - t)))),
                   Val lo, Val (8388611 / 16777216)]
             else if (2 :: int) mod 3 = 2
             then [Val (8388611 / 16777216),
                   Val (round_float (round_double (8388611 / 16777216 + round_double (of_int 2 - t)))), Val lo]
             else [Val lo, Val (8388611 / 16777216),
                   Val (round_float (round_double (8388611 / 16777216 + round_double (of_int 2 - t))))])"
    unfolding lo_def using assms(2,3) handoff_example(1)
    by (intro palette_before_integer) simp_all
  then have p: "rainbow_palette (Val t) (Val (8388611 / 16777216)) =
     Return [Val (8388611 / 16777216),
             Val (round_float (round_double (8388611 / 16777216 + round_double (of_int 2 - t)))), Val lo]"
    by simp
  have "t \<le> 2 - 1 / 2 ^ 52" using assms by (rule double_below_2)
  then have "8388611 / 16777216 + (1 - (of_int 2 - t)) \<le> 8388611 / 16777216 + (1 - 1 / 2 ^ 52)"
    by simp
  then have "lo \<le> round_float (round_double (8388611 / 16777216 + (1 - 1 / 2 ^ 52)))"
    unfolding lo_def by (intro round_float_mono round_double_mono)
  then have "lo \<le> 12582913 / 8388608" by (simp only: handoff_example(4))
  with p show ?thesis by blast
qed


lemma handoff_close:
  assumes n: "0 < n" "of_int n < (2 ^ 63 - 1 :: real)"
    and t: "of_int n - 1 \<le> t" "t < of_int n"
    and fc: "is_float (Val c)"
  shows "\<exists>r g b r' g' b'.
       rainbow_palette (Val (of_int n)) (Val c) = Return [Val r, Val g, Val b]
     \<and> rainbow_palette (Val t) (Val c) = Return [Val r', Val g', Val b']
     \<and> \<bar>r' - r\<bar> \<le> of_int n - t + (\<bar>c\<bar> + 1) / 2 ^ 21
     \<and> \<bar>g' - g\<bar> \<le> of_int n - t + (\<bar>c\<bar> + 1) / 2 ^ 21
     \<and> \<bar>b' - b\<bar> \<le> of_int n - t + (\<bar>c\<bar> + 1) / 2 ^ 21
     \<and> (1 / 10 \<le> c \<and> c \<le> 99 / 10 \<longrightarrow>
          \<bar>r' - r\<bar> \<le> of_int n - t + 1 / 2 ^ 19
        \<and> \<bar>g' - g\<bar> \<le> of_int n - t + 1 / 2 ^ 19
        \<and> \<bar>b' - b\<bar> \<le> of_int n - t + 1 / 2 ^ 19)"
proof -
  define d where "d = of_int n - t"
  define tol where "tol = (\<bar>c\<bar> + 1) / 2 ^ 21"
  define cap where "cap = round_float (round_double (c + 1))"
  define hi where "hi = round_float (round_double (c + round_double d))"
  define lo where "lo = round_float (round_double (c + (1 - d)))"
  have rf: "round_float c = c" using fc by (simp add: is_float_Val)
  have d: "0 < d" "d \<le> 1" unfolding d_def using t by simp_all
  have at_n: "rainbow_palette (Val (of_int n)) (Val c) =
     Return (if n mod 3 = 0 then [Val cap, Val c, Val c]
             else if n mod 3 = 1 then [Val c, Val cap, Val c]
             else [Val c, Val c, Val cap])"
    unfolding cap_def using n fc by (intro palette_at_integer) simp_all
  have before: "rainbow_palette (Val t) (Val c) =
     Return (if n mod 3 = 1 then [Val hi, Val lo, Val c]
             else if n mod 3 = 2 then [Val c, Val hi, Val lo]
             else [Val lo, Val c, Val hi])"
    unfolding hi_def lo_def d_def using n t fc by (rule palette_before_integer)
  have g: "\<bar>hi - c\<bar> \<le> d + tol" "\<bar>lo - cap\<bar> \<le> d + tol"
    unfolding hi_def lo_def cap_def tol_def using rf d by (rule handoff_float)+
  have z: "\<bar>c - c\<bar> \<le> d + tol" "\<bar>c - c\<bar> \<le> d + 1 / 2 ^ 19"
    using d by (simp_all add: tol_def)
  have v: "\<bar>hi - c\<bar> \<le> d + 1 / 2 ^ 19" "\<bar>lo - cap\<bar> \<le> d + 1 / 2 ^ 19"
    if "1 / 10 \<le> c" "c \<le> 99 / 10"
    unfolding hi_def lo_def cap_def using rf that d by (rule handoff_bounds)+
  have intro: "?thesis"
    if "rainbow_palette (Val (of_int n)) (Val c) = Return [Val r, Val g, Val b]"
       "rainbow_palette (Val t) (Val c) = Return [Val r', Val g', Val b']"
       "\<bar>r' - r\<bar> \<le> d + tol" "\<bar>g' - g\<bar> \<le> d + tol" "\<bar>b' - b\<bar> \<le> d + tol"
       "1 / 10 \<le> c \<Longrightarrow> c \<le> 99 / 10 \<Longrightarrow> \<bar>r' - r\<bar> \<le> d + 1 / 2 ^ 19"
       "1 / 10 \<le> c \<Longrightarrow> c \<le> 99 / 10 \<Longrightarrow> \<bar>g' - g\<bar> \<le> d + 1 / 2 ^ 19"
       "1 / 10 \<le> c \<Longrightarrow> c \<le> 99 / 10 \<Longrightarrow> \<bar>b' - b\<bar> \<le> d + 1 / 2 ^ 19"
    for r g b r' g' b'
    using that unfolding d_def tol_def by blast
  consider "n mod 3 = 0" | "n mod 3 = 1" | "n mod 3 = 2" using mod3_cases [of n] by blast
  then show ?thesis
  proof cases
    case 1
    have "rainbow_palette (Val (of_int n)) (Val c) = Return [Val cap, Val c, Val c]"
      "rainbow_palette (Val t) (Val c) = Return [Val lo, Val c, Val hi]"
      using at_n before 1 by simp_all
    then show ?thesis using g(2) z(1) g(1) v(2) z(2) v(1) by (rule intro)
  next
    case 2
    have "rainbow_palette (Val (of_int n)) (Val c) = Return [Val c, Val cap, Val c]"
      "rainbow_palette (Val t) (Val c) = Return [Val hi, Val lo, Val c]"
      using at_n before 2 by simp_all
    then show ?thesis using g(1) g(2) z(1) v(1) v(2) z(2) by (rule intro)
  next
    case 3
    have "rainbow_palette (Val (of_int n)) (Val c) = Return [Val c, Val c, Val cap]"
      "rainbow_palette (Val t) (Val c) = Return [Val c, Val hi, Val lo]"
      using at_n before 3 by simp_all
    then show ?thesis using z(1) g(1) g(2) z(2) v(1) v(2) by (rule intro)
  qed
qed

text \<open>More than a unit of time before \<open>n\<close> the bound is that of a full boost.\<close>

lemma far_close:
  assumes n: "of_int n < (2 ^ 63 - 1 :: real)"
    and t: "0 \<le> t" "t < of_int n - 1"
    and fc: "is_float (Val c)"
  shows "\<exists>r g b r' g' b'.
       rainbow_palette (Val (of_int n)) (Val c) = Return [Val r, Val g, Val b]
     \<and> rainbow_palette (Val t) (Val c) = Return [Val r', Val g', Val b']
     \<and> \<bar>r' - r\<bar> \<le> of_int n - t + (\<bar>c\<bar> + 1) / 2 ^ 21
     \<and> \<bar>g' - g\<bar> \<le> of_int n - t + (\<bar>c\<bar> + 1) / 2 ^ 21
     \<and> \<bar>b' - b\<bar> \<le> of_int n - t + (\<bar>c\<bar> + 1) / 2 ^ 21
     \<and> (1 / 10 \<le> c \<and> c \<le> 99 / 10 \<longrightarrow>
          \<bar>r' - r\<bar> \<le> of_int n - t + 1 / 2 ^ 19
        \<and> \<bar>g' - g\<bar> \<le> of_int n - t + 1 / 2 ^ 19
        \<and> \<bar>b' - b\<bar> \<le> of_int n - t + 1 / 2 ^ 19)"
proof -
  have n0: "(0 :: real) \<le> of_int n" using t by linarith
  have t1: "t < 2 ^ 63 - 1" using n t by linarith
  from palette_far [OF n0 n t(1) t1 fc] obtain r g b r' g' b' where
    p: "rainbow_palette (Val (of_int n)) (Val c) = Return [Val r, Val g, Val b]"
       "rainbow_palette (Val t) (Val c) = Return [Val r', Val g', Val b']"
    and e: "\<bar>r' - r\<bar> \<le> 1 + (\<bar>c\<bar> + 1) / 2 ^ 23" "\<bar>g' - g\<bar> \<le> 1 + (\<bar>c\<bar> + 1) / 2 ^ 23"
       "\<bar>b' - b\<bar> \<le> 1 + (\<bar>c\<bar> + 1) / 2 ^ 23"
    by blast
  have q: "(\<bar>c\<bar> + 1) / 2 ^ 21 = 4 * ((\<bar>c\<bar> + 1) / 2 ^ 23)" "0 \<le> (\<bar>c\<bar> + 1) / 2 ^ 23"
    by simp_all
  have k: "1 + (\<bar>c\<bar> + 1) / 2 ^ 23 \<le> of_int n - t + (\<bar>c\<bar> + 1) / 2 ^ 21"
    using t q by linarith
  have k': "1 + (\<bar>c\<bar> + 1) / 2 ^ 23 \<le> of_int n - t + 1 / 2 ^ 19" if "1 / 10 \<le> c" "c \<le> 99 / 10"
  proof -
    have "\<bar>c\<bar> + 1 \<le> 16" using that by linarith
    then have "(\<bar>c\<bar> + 1) / 2 ^ 23 \<le> 16 / 2 ^ 23" by (rule divide_right_mono) simp
    also have "\<dots> = 1 / 2 ^ 19" by simp
    finally show ?thesis using t by linarith
  qed
  have 1: "\<bar>r' - r\<bar> \<le> of_int n - t + (\<bar>c\<bar> + 1) / 2 ^ 21"
    "\<bar>g' - g\<bar> \<le> of_int n - t + (\<bar>c\<bar> + 1) / 2 ^ 21"
    "\<bar>b' - b\<bar> \<le> of_int n - t + (\<bar>c\<bar> + 1) / 2 ^ 21"
    using e k by linarith+
  have 2: "\<bar>r' - r\<bar> \<le> of_int n - t + 1 / 2 ^ 19"
    "\<bar>g' - g\<bar> \<le> of_int n - t + 1 / 2 ^ 19"
    "\<bar>b' - b\<bar> \<le> of_int n - t + 1 / 2 ^ 19"
    if "1 / 10 \<le> c" "c \<le> 99 / 10"
    using e k' [OF that] by linarith+
  from p 1 2 show ?thesis by blast
qed

text \<open>
  Claim C5 says that for every positive integer \<open>n\<close> and every luminosity the triple
  computed at \<open>t\<close> converges to the triple computed at \<open>n\<close> as \<open>t\<close> approaches \<open>n\<close> from
  below. The times are doubles. With the luminosity \<open>1 / 2 + 3 / 2 ^ 24\<close> the blue channel
  is \<open>3 / 2 + 2 ^ -22\<close> at \<open>t = 2\<close> and \<open>3 / 2 + 2 ^ -23\<close> at \<open>2 - 2 ^ -52\<close>, the last double
  before 2 (the doubles of [1, 2) are \<open>2 ^ -52\<close> apart, and \<open>2 - 2 ^ -53\<close> rounds to 2);
  by \<open>handoff_gap\<close> it is at most that at every double of [1, 2). However near the
  time, the triple stays one step of the float format away from the triple at 2.
\<close>

theorem palette_handoff_inexact:
  "is_float (Val (8388611 / 16777216))
   \<and> round_double (2 - 1 / 2 ^ 52) = 2 - 1 / 2 ^ 52
   \<and> rainbow_palette (Val 2) (Val (8388611 / 16777216))
       = Return [Val (8388611 / 16777216), Val (8388611 / 16777216), Val (6291457 / 4194304)]
   \<and> rainbow_palette (Val (2 - 1 / 2 ^ 52)) (Val (8388611 / 16777216))
       = Return [Val (8388611 / 16777216), Val (8388611 / 16777216), Val (12582913 / 8388608)]
   \<and> (6291457 / 4194304 - 12582913 / 8388608 :: real) = 1 / 2 ^ 23
   \<and> round_double (2 - 1 / 2 ^ 53) = 2"
proof -
  have a: "round_double (2 - 1 / 2 ^ 52) = 2 - 1 / 2 ^ 52" "round_double (2 - 1 / 2 ^ 53) = 2"
    by (simp_all add: rounding_defs ilog2.simps)
  have b: "(6291457 / 4194304 - 12582913 / 8388608 :: real) = 1 / 2 ^ 23" by simp
  from handoff_example(1,2,3) a b show ?thesis by blast
qed


text \<open>
  Claim C5 as amended: for every positive integer \<open>n < 2 ^ 63 - 1\<close>, every time
  \<open>0 \<le> t < n\<close> and every float luminosity \<open>L\<close>, the function computes a triple at \<open>n\<close>
  and at \<open>t\<close>, and each channel at \<open>t\<close> differs from the same channel at \<open>n\<close> by at most
  the time left \<open>n - t\<close> and the rounding tolerance \<open>(\<bar>L\<bar> + 1) / 2 ^ 21\<close> of the channel
  (an infinite or NaN luminosity gives the same channels); for a luminosity in
  [0.1, 9.9] by at most \<open>n - t + 2 ^ -19\<close>. So the handoff of the boost has no jump
  beyond the rounding of a float.
\<close>

theorem palette_left_continuous:
  assumes n: "0 < n" "of_int n < (2 ^ 63 - 1 :: real)"
    and t: "0 \<le> t" "t < of_int n"
    and L: "is_float L"
  shows "\<exists>r g b r' g' b'.
       rainbow_palette (Val (of_int n)) L = Return [r, g, b]
     \<and> rainbow_palette (Val t) L = Return [r', g', b']
     \<and> fp_close (of_int n - t + rounding_tolerance L) r' r
     \<and> fp_close (of_int n - t + rounding_tolerance L) g' g
     \<and> fp_close (of_int n - t + rounding_tolerance L) b' b
     \<and> (fp_le (Val (1 / 10)) L \<and> fp_le L (Val (99 / 10)) \<longrightarrow>
          fp_close (of_int n - t + 1 / 2 ^ 19) r' r
        \<and> fp_close (of_int n - t + 1 / 2 ^ 19) g' g
        \<and> fp_close (of_int n - t + 1 / 2 ^ 19) b' b)"
proof (cases "\<exists>c. L = Val c")
  case False
  then have nf: "L = PosInf \<or> L = NegInf \<or> L = NaN" by (cases L) simp_all
  have t0: "t < 2 ^ 63 - 1" "(0 :: real) \<le> of_int n" using n t by simp_all
  have 1: "rainbow_palette (Val (of_int n)) L = Return [L, L, L]"
    using t0(2) n(2) nf by (rule palette_nonfinite)
  have 2: "rainbow_palette (Val t) L = Return [L, L, L]"
    using t(1) t0(1) nf by (rule palette_nonfinite)
  have "fp_close d L L" for d using nf by (auto simp: fp_close_def)
  with 1 2 show ?thesis by blast
next
  case True
  then obtain c where Lc: "L = Val c" by blast
  have fc: "is_float (Val c)" using L Lc by simp
  have "\<exists>r g b r' g' b'.
       rainbow_palette (Val (of_int n)) (Val c) = Return [Val r, Val g, Val b]
     \<and> rainbow_palette (Val t) (Val c) = Return [Val r', Val g', Val b']
     \<and> \<bar>r' - r\<bar> \<le> of_int n - t + (\<bar>c\<bar> + 1) / 2 ^ 21
     \<and> \<bar>g' - g\<bar> \<le> of_int n - t + (\<bar>c\<bar> + 1) / 2 ^ 21
     \<and> \<bar>b' - b\<bar> \<le> of_int n - t + (\<bar>c\<bar> + 1) / 2 ^ 21
     \<and> (1 / 10 \<le> c \<and> c \<le> 99 / 10 \<longrightarrow>
          \<bar>r' - r\<bar> \<le> of_int n - t + 1 / 2 ^ 19
        \<and> \<bar>g' - g\<bar> \<le> of_int n - t + 1 / 2 ^ 19
        \<and> \<bar>b' - b\<bar> \<le> of_int n - t + 1 / 2 ^ 19)"
  proof (cases "of_int n - 1 \<le> t")
    case True
    with n show ?thesis using t(2) fc by (rule handoff_close)
  next
    case False
    then have "t < of_int n - 1" by simp
    with n(2) t(1) show ?thesis using fc by (rule far_close)
  qed
  then obtain r g b r' g' b' where
    p: "rainbow_palette (Val (of_int n)) L = Return [Val r, Val g, Val b]"
       "rainbow_palette (Val t) L = Return [Val r', Val g', Val b']"
    and e: "\<bar>r' - r\<bar> \<le> of_int n - t + (\<bar>c\<bar> + 1) / 2 ^ 21"
       "\<bar>g' - g\<bar> \<le> of_int n - t + (\<bar>c\<bar> + 1) / 2 ^ 21"
       "\<bar>b' - b\<bar> \<le> of_int n - t + (\<bar>c\<bar> + 1) / 2 ^ 21"
    and v: "1 / 10 \<le> c \<and> c \<le> 99 / 10 \<longrightarrow>
          \<bar>r' - r\<bar> \<le> of_int n - t + 1 / 2 ^ 19
        \<and> \<bar>g' - g\<bar> \<le> of_int n - t + 1 / 2 ^ 19
        \<and> \<bar>b' - b\<bar> \<le> of_int n - t + 1 / 2 ^ 19"
    unfolding Lc by blast
  have 1: "fp_close (of_int n - t + rounding_tolerance L) (Val r') (Val r)"
    "fp_close (of_int n - t + rounding_tolerance L) (Val g') (Val g)"
    "fp_close (of_int n - t + rounding_tolerance L) (Val b') (Val b)"
    using e by (simp_all add: Lc)
  have 2: "fp_le (Val (1 / 10)) L \<and> fp_le L (Val (99 / 10)) \<longrightarrow>
          fp_close (of_int n - t + 1 / 2 ^ 19) (Val r') (Val r)
        \<and> fp_close (of_int n - t + 1 / 2 ^ 19) (Val g') (Val g)
        \<and> fp_close (of_int n - t + 1 / 2 ^ 19) (Val b') (Val b)"
    using v by (simp add: Lc)
  from p 1 2 show ?thesis by blast
qed

theorem palette_left_continuous_witness:
  "(0 :: int) < 2 \<and> (of_int 2 :: real) < 2 ^ 63 - 1
   \<and> (0 :: real) \<le> 2 - 1 / 2 ^ 52 \<and> (2 - 1 / 2 ^ 52 :: real) < of_int 2
   \<and> is_float (Val (8388611 / 16777216))
   \<and> fp_le (Val (1 / 10)) (Val (8388611 / 16777216)) \<and> fp_le (Val (8388611 / 16777216)) (Val (99 / 10))
   \<and> fp_close (of_int 2 - (2 - 1 / 2 ^ 52) + rounding_tolerance (Val (8388611 / 16777216)))
        (Val (12582913 / 8388608)) (Val (6291457 / 4194304))
   \<and> fp_close (of_int 2 - (2 - 1 / 2 ^ 52) + 1 / 2 ^ 19)
        (Val (12582913 / 8388608)) (Val (6291457 / 4194304))"
proof -
  have h: "(0 :: int) < 2" "(of_int 2 :: real) < 2 ^ 63 - 1"
    "(0 :: real) \<le> 2 - 1 / 2 ^ 52" "(2 - 1 / 2 ^ 52 :: real) < of_int 2"
    by simp_all
  have r: "fp_le (Val (1 / 10)) (Val (8388611 / 16777216)) \<and> fp_le (Val (8388611 / 16777216)) (Val (99 / 10))"
    by simp
  from palette_left_continuous [OF h handoff_example(1)]
  obtain r g b r' g' b' where
    1: "rainbow_palette (Val (of_int 2)) (Val (8388611 / 16777216)) = Return [r, g, b]"
    and 2: "rainbow_palette (Val (2 - 1 / 2 ^ 52)) (Val (8388611 / 16777216)) = Return [r', g', b']"
    and 3: "fp_close (of_int 2 - (2 - 1 / 2 ^ 52) + rounding_tolerance (Val (8388611 / 16777216))) b' b"
    and 4: "fp_le (Val (1 / 10)) (Val (8388611 / 16777216)) \<and> fp_le (Val (8388611 / 16777216)) (Val (99 / 10))
         \<longrightarrow> fp_close (of_int 2 - (2 - 1 / 2 ^ 52) + 1 / 2 ^ 19) r' r
           \<and> fp_close (of_int 2 - (2 - 1 / 2 ^ 52) + 1 / 2 ^ 19) g' g
           \<and> fp_close (of_int 2 - (2 - 1 / 2 ^ 52) + 1 / 2 ^ 19) b' b"
    by blast
  have b: "b = Val (6291457 / 4194304)" "b' = Val (12582913 / 8388608)"
    using 1 2 handoff_example(2,3) by simp_all
  have 5: "fp_close (of_int 2 - (2 - 1 / 2 ^ 52) + 1 / 2 ^ 19) b' b" using 4 r by blast
  from h handoff_example(1) r 3 5 show ?thesis unfolding b by blast
qed

subsection \<open>The command line\<close>

lemma parse_args_append:
  "parse_args atof pre c0 = Proceed c1 \<Longrightarrow> parse_args atof (pre @ xs) c0 = parse_args atof xs c1"
proof (induction atof pre c0 rule: parse_args.induct)
  case (1 atof cfg)
  then show ?case by (simp add: parse_args.simps)
next
  case (2 atof a rest cfg)
  show ?case
  proof (cases "rest")
    case Nil
    then show ?thesis using 2(4) by (simp add: parse_args.simps split: if_splits)
  next
    case (Cons v rest')
    then show ?thesis using 2 by (simp add: parse_args.simps Let_def split: if_splits)
  qed
qed

lemma parse_args_valid:
  assumes "parse_args atof args c0 = Proceed c"
    and "\<not> fp_le (speed c0) (Val 0)"
    and "\<not> fp_less (luminosity c0) f_0_1 \<and> \<not> fp_greater (luminosity c0) f_9_9"
  shows "\<not> fp_le (speed c) (Val 0) \<and> \<not> fp_less (luminosity c) f_0_1 \<and> \<not> fp_greater (luminosity c) f_9_9"
  using assms
proof (induction atof args c0 rule: parse_args.induct)
  case (1 atof cfg)
  then show ?case by (simp add: parse_args.simps)
next
  case (2 atof a rest cfg)
  show ?case
  proof (cases "rest")
    case Nil
    then show ?thesis using 2(4) by (simp add: parse_args.simps split: if_splits)
  next
    case (Cons v rest')
    then show ?thesis using 2 by (simp add: parse_args.simps Let_def split: if_splits)
  qed
qed

lemma startup_Quit:
  "parse_args atof args default_config = Quit text status \<Longrightarrow>
   startup atof dpy ts args = \<lparr>proc = initial_process\<lparr>printed := [text]\<rparr>, cfg = default_config,
      start_time = Val 0, pc = Ended (Exit status)\<rparr>"
  by (simp add: startup_def c_exit_def initial_process_def)

text \<open>
  Claim C10: without arguments the configuration is the default one: time limit -1.0,
  speed 1.0 and luminosity \<^verbatim>\<open>1.0f / 3.0f\<close>, the float nearest to 1/3; these values are
  not changed by the loop over the arguments, which checks none of them, and they satisfy
  the constraints: the speed is positive and the luminosity lies in [0.1, 9.9] and passes
  the test made on a luminosity argument.
\<close>

theorem defaults_valid:
  "parse_args atof [] default_config = Proceed default_config
   \<and> cfg (startup atof (Some (d, scr)) (Some ts) []) = default_config
   \<and> time_limit default_config = Val (- 1)
   \<and> speed default_config = Val 1
   \<and> luminosity default_config = float_of_real (1 / 3)
   \<and> luminosity default_config = Val (11184811 / 33554432)
   \<and> \<bar>11184811 / 33554432 - 1 / 3\<bar> \<le> (1 / 2 ^ 26 :: real)
   \<and> fp_less (time_limit default_config) (Val 0)
   \<and> fp_greater (speed default_config) (Val 0)
   \<and> \<not> fp_le (speed default_config) (Val 0)
   \<and> fp_ge (luminosity default_config) (Val (1 / 10))
   \<and> fp_le (luminosity default_config) (Val (99 / 10))
   \<and> \<not> (fp_less (luminosity default_config) f_0_1 \<or> fp_greater (luminosity default_config) f_9_9)"
  by (simp add: default_config_def default_luminosity fp_greater_def fp_ge_def f_0_1_eq f_9_9_eq
      startup_def get_time_def parse_args.simps split: prod.splits)

text \<open>
  Claim C6 says that every speed \<open>\<le> 0\<close> and every luminosity outside [0.1, 9.9] is rejected
  before the display is opened. The luminosity is compared as a float with the floats
  \<^verbatim>\<open>0.1f\<close> and \<^verbatim>\<open>9.9f\<close>: the argument 9.90000009, which \<^verbatim>\<open>atof\<close> returns as a double
  above 9.9, becomes the float \<^verbatim>\<open>9.9f\<close>, is accepted, and the display is opened.
\<close>

theorem luminosity_above_range_accepted:
  "(99 / 10 :: real) < 5573204589536485 / 562949953421312
   \<and> double_of_real (990000009 / 100000000) = Val (5573204589536485 / 562949953421312)
   \<and> parse_args (\<lambda>a. Val (5573204589536485 / 562949953421312)) [''-l'', ''9.90000009''] default_config
       = Proceed (default_config\<lparr>luminosity := Val (5190451 / 524288)\<rparr>)
   \<and> pc (startup (\<lambda>a. Val (5573204589536485 / 562949953421312)) (Some (7, 0)) (Some (5, 0))
          [''-l'', ''9.90000009'']) = Cond
   \<and> xlog (proc (startup (\<lambda>a. Val (5573204589536485 / 562949953421312)) (Some (7, 0)) (Some (5, 0))
          [''-l'', ''9.90000009''])) = [OpenDisplay]"
proof -
  have 1: "double_of_real (990000009 / 100000000) = Val (5573204589536485 / 562949953421312)"
    by (simp add: rounding_defs ilog2.simps)
  have 2: "parse_args (\<lambda>a. Val (5573204589536485 / 562949953421312)) [''-l'', ''9.90000009''] default_config
       = Proceed (default_config\<lparr>luminosity := Val (5190451 / 524288)\<rparr>)"
    by (simp add: parse_args.simps is_flag_def fp_greater_def f_0_1_eq f_9_9_eq rounding_defs ilog2.simps)
  show ?thesis
    by (simp add: 1 startup_def 2 get_time_def initial_process_def)
qed

text \<open>
  Claim C6 as amended: when the arguments before it are accepted, a speed argument \<open>\<le> 0\<close>
  and a luminosity argument whose conversion to float is below \<^verbatim>\<open>0.1f\<close> or above \<^verbatim>\<open>9.9f\<close>
  make the program print the usage and exit with the failure status, with no request to
  open the display; and the loop over the arguments runs to its end only with a speed
  that is not \<open>\<le> 0\<close> and a luminosity that is neither below \<^verbatim>\<open>0.1f\<close> nor above \<^verbatim>\<open>9.9f\<close>.
\<close>

theorem validation_rejects:
  assumes "parse_args atof pre default_config = Proceed c"
  shows "(is_flag flag ''-s'' ''--speed'' \<and> fp_le (atof v) (Val 0)
          \<or> is_flag flag ''-l'' ''--luminosity''
             \<and> (fp_less (to_float (atof v)) f_0_1 \<or> fp_greater (to_float (atof v)) f_9_9)
         \<longrightarrow> pc (startup atof dpy ts (pre @ flag # v # rest)) = Ended (Exit EXIT_FAILURE)
           \<and> printed (proc (startup atof dpy ts (pre @ flag # v # rest))) = [Usage]
           \<and> xlog (proc (startup atof dpy ts (pre @ flag # v # rest))) = [])
       \<and> \<not> fp_le (speed c) (Val 0)
       \<and> \<not> fp_less (luminosity c) f_0_1 \<and> \<not> fp_greater (luminosity c) f_9_9"
proof -
  have 1: "parse_args atof (pre @ flag # v # rest) default_config = parse_args atof (flag # v # rest) c"
    using assms by (rule parse_args_append)
  have 2: "parse_args atof (flag # v # rest) c = Quit Usage EXIT_FAILURE"
    if "is_flag flag ''-s'' ''--speed'' \<and> fp_le (atof v) (Val 0)
          \<or> is_flag flag ''-l'' ''--luminosity''
             \<and> (fp_less (to_float (atof v)) f_0_1 \<or> fp_greater (to_float (atof v)) f_9_9)"
    using that by (auto simp: parse_args.simps Let_def is_flag_def)
  have 3: "\<not> fp_le (speed c) (Val 0) \<and> \<not> fp_less (luminosity c) f_0_1 \<and> \<not> fp_greater (luminosity c) f_9_9"
    using assms
    by (rule parse_args_valid)
       (simp_all add: default_config_def default_luminosity fp_greater_def f_0_1_eq f_9_9_eq)
  show ?thesis using 1 2 3 by (auto simp: startup_Quit initial_process_def)
qed

theorem validation_rejects_witness:
  "parse_args (\<lambda>a. if a = ''2'' then Val 2 else if a = ''12'' then Val 12 else Val 0) [''-t'', ''2''] default_config
     = Proceed (default_config\<lparr>time_limit := Val 2\<rparr>)
   \<and> fp_le ((\<lambda>a. if a = ''2'' then Val 2 else if a = ''12'' then Val 12 else Val 0) ''0'') (Val 0)
   \<and> pc (startup (\<lambda>a. if a = ''2'' then Val 2 else if a = ''12'' then Val 12 else Val 0) (Some (7, 0)) (Some (5, 0))
           ([''-t'', ''2''] @ ''-s'' # ''0'' # [])) = Ended (Exit EXIT_FAILURE)
   \<and> printed (proc (startup (\<lambda>a. if a = ''2'' then Val 2 else if a = ''12'' then Val 12 else Val 0)
           (Some (7, 0)) (Some (5, 0)) ([''-t'', ''2''] @ ''-s'' # ''0'' # []))) = [Usage]
   \<and> xlog (proc (startup (\<lambda>a. if a = ''2'' then Val 2 else if a = ''12'' then Val 12 else Val 0)
           (Some (7, 0)) (Some (5, 0)) ([''-t'', ''2''] @ ''-s'' # ''0'' # []))) = []
   \<and> fp_greater (to_float ((\<lambda>a. if a = ''2'' then Val 2 else if a = ''12'' then Val 12 else Val 0) ''12'')) f_9_9
   \<and> pc (startup (\<lambda>a. if a = ''2'' then Val 2 else if a = ''12'' then Val 12 else Val 0) (Some (7, 0)) (Some (5, 0))
           ([''-t'', ''2''] @ ''--luminosity'' # ''12'' # [''-h''])) = Ended (Exit EXIT_FAILURE)"
proof -
  define atof where "atof = (\<lambda>a. if a = ''2'' then Val 2 else if a = ''12'' then Val (12::real) else Val 0)"
  have p: "parse_args atof [''-t'', ''2''] default_config = Proceed (default_config\<lparr>time_limit := Val 2\<rparr>)"
    by (simp add: atof_def parse_args.simps is_flag_def)
  have s: "fp_le (atof ''0'') (Val 0)" by (simp add: atof_def)
  have l: "fp_greater (to_float (atof ''12'')) f_9_9"
    by (simp add: atof_def fp_greater_def f_9_9_eq rounding_defs ilog2.simps)
  from validation_rejects [OF p, of "''-s''" "''0''" "Some (7, 0)" "Some (5, 0)" "[]"]
    validation_rejects [OF p, of "''--luminosity''" "''12''" "Some (7, 0)" "Some (5, 0)" "[''-h'']"]
    p s l
  show ?thesis unfolding atof_def by (simp add: is_flag_def)
qed

subsection \<open>Steps of the machine\<close>

lemma fp_less_not_le: "fp_less a b \<Longrightarrow> \<not> fp_le b a"
  by (cases a; cases b) simp_all

lemma fp_ge_zero_not_less: "fp_ge T (Val 0) \<Longrightarrow> \<not> fp_less T (Val 0)"
  by (cases T) (simp_all add: fp_ge_def)

lemma get_time_Return: "get_time ts s = (Return tm, s') \<Longrightarrow> s' = s"
  by (auto simp: get_time_def split: option.splits prod.splits)

lemma get_time_Some:
  "get_time (Some (sec, nsec)) s =
    (Return (d_add (double_of_real (of_int sec)) (d_div (double_of_real (of_int nsec)) (Val 1000000000))), s)"
  by (simp add: get_time_def)

lemma clock_values:
  "d_add (double_of_real 100) (d_div (double_of_real 0) (Val 1000000000)) = Val 100"
  "d_add (double_of_real 101) (d_div (double_of_real 0) (Val 1000000000)) = Val 101"
  "d_add (double_of_real 103) (d_div (double_of_real 0) (Val 1000000000)) = Val 103"
  by (simp_all add: d_add_def d_div_def rounding_defs ilog2.simps)


lemma get_time_effect:
  "get_time ts s = (out, s') \<Longrightarrow>
     xlog s' = xlog s \<and> atexit_fns s' = atexit_fns s \<and> x11_display s' = x11_display s
     \<and> pending_quit s' = pending_quit s"
  by (auto simp: get_time_def split: option.splits prod.splits)

lemma change_gamma_effect:
  "change_gamma ok r g b s = (out, s') \<Longrightarrow>
     atexit_fns s' = atexit_fns s \<and> x11_display s' = x11_display s
     \<and> pending_quit s' = pending_quit s
     \<and> (case out of
           Return u \<Rightarrow> ok \<and> xlog s' = xlog s @ [SetGamma r g b True, Flush]
         | Stop e \<Rightarrow> xlog s' = xlog s \<or> xlog s' = xlog s @ [SetGamma r g b False])"
  by (auto simp: change_gamma_def split: if_splits)

lemma call_rainbow_effect:
  "call_rainbow ok t c s = (out, s') \<Longrightarrow>
     atexit_fns s' = atexit_fns s \<and> x11_display s' = x11_display s
     \<and> pending_quit s' = pending_quit s
     \<and> (case out of
           Return u \<Rightarrow> (\<exists>r g b. xlog s' = xlog s @ [SetGamma r g b True, Flush])
         | Stop e \<Rightarrow> xlog s' = xlog s \<or> (\<exists>r g b. xlog s' = xlog s @ [SetGamma r g b False]))"
  unfolding call_rainbow_def
  by (cases "rainbow_palette t c"; cases out)
     (auto dest!: change_gamma_effect)

lemma change_gamma_neutral:
  "x11_display s \<noteq> None \<Longrightarrow>
   change_gamma ok f_1 f_1 f_1 s =
     (if ok then (Return (), s\<lparr>xlog := xlog s @ [SetGamma f_1 f_1 f_1 True, Flush]\<rparr>)
      else (Stop (Exit EXIT_FAILURE),
            s\<lparr>xlog := xlog s @ [SetGamma f_1 f_1 f_1 False], printed := printed s @ [Error_message]\<rparr>))"
  by (simp add: change_gamma_def gamma_in_range_def fp_ge_def f_1_eq f_0_1_eq f_10_eq)

lemma quit_application_effect:
  "x11_display s \<noteq> None \<Longrightarrow>
   quit_application ok s =
     (if ok then (Return (), s\<lparr>xlog := xlog s @ [SetGamma f_1 f_1 f_1 True, Flush, CloseDisplay],
                               x11_display := None\<rparr>)
      else (Stop (Exit EXIT_FAILURE),
            s\<lparr>xlog := xlog s @ [SetGamma f_1 f_1 f_1 False], printed := printed s @ [Error_message]\<rparr>))"
  by (simp add: quit_application_def change_gamma_neutral)


lemma run_Nil [simp]: "run m [] = m"
  by (simp add: run_def)

lemma run_Cons [simp]: "run m (ev # evs) = run (fire m ev) evs"
  by (simp add: run_def)

lemma run_append: "run m (evs @ evs') = run (run m evs) evs'"
  by (simp add: run_def)

lemma halt_teardown_inv:
  assumes "atexit_fns (proc m) = [Quit_application]" "x11_display (proc m) \<noteq> None"
    "CloseDisplay \<notin> set (xlog (proc m))"
  shows "teardown_inv (halt e m)"
  using assms by (cases e) (simp_all add: halt_def c_exit_def teardown_inv_def)

lemma c_exit_teardown_inv:
  assumes "atexit_fns (proc m) = [Quit_application]" "x11_display (proc m) \<noteq> None"
    "CloseDisplay \<notin> set (xlog (proc m))"
  shows "teardown_inv (c_exit status m)"
  using assms by (simp add: c_exit_def teardown_inv_def)

lemma teardown_inv_loop:
  "in_loop (pc m) \<or> pc m = Exiting status \<Longrightarrow>
   teardown_inv m \<longleftrightarrow> atexit_fns (proc m) = [Quit_application] \<and> x11_display (proc m) \<noteq> None
             \<and> CloseDisplay \<notin> set (xlog (proc m))"
  by (cases "pc m") (auto simp: teardown_inv_def)

lemma step_teardown_inv:
  assumes "teardown_inv m"
  shows "teardown_inv (step i m)"
proof (cases "pc m")
  case Cond
  then have inv: "atexit_fns (proc m) = [Quit_application]" "x11_display (proc m) \<noteq> None"
    "CloseDisplay \<notin> set (xlog (proc m))"
    using assms by (simp_all add: teardown_inv_def)
  obtain out s where g: "get_time (now i) (proc m) = (out, s)" by (cases "get_time (now i) (proc m)")
  note e = get_time_effect [OF g]
  show ?thesis
  proof (cases "fp_less (time_limit (cfg m)) (Val 0)")
    case True
    then show ?thesis using Cond inv by (simp add: step_def teardown_inv_def)
  next
    case False
    show ?thesis
    proof (cases out)
      case (Return tm)
      show ?thesis
      proof (cases "fp_ge (time_limit (cfg m)) (d_sub tm (start_time m))")
        case True
        then show ?thesis using Cond False Return g e inv
          by (simp add: step_def teardown_inv_def)
      next
        case ge: False
        have "teardown_inv (c_exit EXIT_SUCCESS (m\<lparr>proc := s\<rparr>))"
          using e inv by (intro c_exit_teardown_inv) simp_all
        then show ?thesis using Cond False Return g ge by (simp add: step_def)
      qed
    next
      case (Stop x)
      then show ?thesis using Cond False g e inv
        by (auto simp: step_def intro!: halt_teardown_inv)
    qed
  qed
next
  case Body
  then have inv: "atexit_fns (proc m) = [Quit_application]" "x11_display (proc m) \<noteq> None"
    "CloseDisplay \<notin> set (xlog (proc m))"
    using assms by (simp_all add: teardown_inv_def)
  obtain out s where g: "get_time (now i) (proc m) = (out, s)" by (cases "get_time (now i) (proc m)")
  note e = get_time_effect [OF g]
  show ?thesis
  proof (cases out)
    case (Stop x)
    then show ?thesis using Body g e inv
      by (auto simp: step_def intro!: halt_teardown_inv)
  next
    case (Return tm)
    obtain out' s' where c: "call_rainbow (gamma_ok i) (d_mul (d_sub tm (start_time m)) (speed (cfg m)))
                       (luminosity (cfg m)) s = (out', s')"
      by (cases "call_rainbow (gamma_ok i) (d_mul (d_sub tm (start_time m)) (speed (cfg m)))
                       (luminosity (cfg m)) s")
    note e' = call_rainbow_effect [OF c]
    show ?thesis
    proof (cases out')
      case r: (Return u)
      then show ?thesis using Body Return g c e e' inv
        by (auto simp: step_def teardown_inv_def)
    next
      case st: (Stop x)
      then show ?thesis using Body Return g c e e' inv
        by (auto simp: step_def intro!: halt_teardown_inv)
    qed
  qed
next
  case Yield
  then show ?thesis using assms by (simp add: step_def teardown_inv_def)
next
  case Check
  then have inv: "atexit_fns (proc m) = [Quit_application]" "x11_display (proc m) \<noteq> None"
    "CloseDisplay \<notin> set (xlog (proc m))"
    using assms by (simp_all add: teardown_inv_def)
  then have "teardown_inv (c_exit EXIT_SUCCESS m)" by (rule c_exit_teardown_inv)
  moreover have "teardown_inv (m\<lparr>pc := Cond\<rparr>)" using inv by (simp add: teardown_inv_def)
  ultimately show ?thesis using Check by (simp add: step_def)
next
  case (Exiting status)
  then have inv: "atexit_fns (proc m) = [Quit_application]" "x11_display (proc m) \<noteq> None"
    "CloseDisplay \<notin> set (xlog (proc m))"
    using assms by (simp_all add: teardown_inv_def)
  show ?thesis using Exiting inv
    by (simp add: step_def quit_application_effect c_exit_def teardown_inv_def torn_down_def)
next
  case (Ended e)
  then show ?thesis using assms by (simp add: step_def)
qed

lemma fire_teardown_inv: "teardown_inv m \<Longrightarrow> teardown_inv (fire m ev)"
proof (cases ev)
  case Signal
  assume "teardown_inv m"
  then show ?thesis using Signal
    by (cases "pc m") (auto simp: fire_def handle_signal_def teardown_inv_def split: stop.splits)
next
  case (Step i)
  assume "teardown_inv m"
  then show ?thesis using Step by (simp add: fire_def step_teardown_inv)
qed

lemma run_teardown_inv: "teardown_inv m \<Longrightarrow> teardown_inv (run m evs)"
  by (induction evs arbitrary: m) (simp_all add: fire_teardown_inv)

lemma startup_teardown_inv:
  assumes "in_loop (pc (startup atof dpy ts args))"
  shows "teardown_inv (startup atof dpy ts args)"
proof (cases "parse_args atof args default_config")
  case (Quit msg status)
  then show ?thesis using assms by (simp add: startup_def c_exit_def initial_process_def)
next
  case (Proceed c)
  show ?thesis
  proof (cases dpy)
    case None
    then show ?thesis using assms Proceed by (simp add: startup_def c_exit_def initial_process_def)
  next
    case (Some a)
    obtain d scr where a: "a = (d, scr)" by (cases a)
    show ?thesis
    proof (cases ts)
      case None
      then show ?thesis using assms Proceed Some a
        by (simp add: startup_def get_time_def halt_def c_exit_def initial_process_def)
    next
      case s: (Some b)
      obtain sec nsec where b: "b = (sec, nsec)" by (cases b)
      show ?thesis using Proceed Some a s b
        by (simp add: startup_def get_time_def initial_process_def teardown_inv_def)
    qed
  qed
qed

lemma torn_down_iff: "torn_down l \<Longrightarrow> CloseDisplay \<in> set l"
  by (auto simp: torn_down_def)

lemma startup_example:
  "startup (\<lambda>a. Val 2) (Some (7, 0)) (Some (100, 0)) [''-t'', ''2'']
     = \<lparr>proc = initial_process\<lparr>x11_display := Some 7, x11_screen := 0,
                    atexit_fns := [Quit_application], xlog := [OpenDisplay]\<rparr>,
        cfg = default_config\<lparr>time_limit := Val 2\<rparr>, start_time = Val 100, pc = Cond\<rparr>"
  "startup (\<lambda>a. Val 2) (Some (7, 0)) (Some (100, 0)) []
     = \<lparr>proc = initial_process\<lparr>x11_display := Some 7, x11_screen := 0,
                    atexit_fns := [Quit_application], xlog := [OpenDisplay]\<rparr>,
        cfg = default_config, start_time = Val 100, pc = Cond\<rparr>"
  by (simp_all add: startup_def parse_args.simps is_flag_def get_time_Some clock_values)

lemma default_palette:
  "rainbow_palette (Val 0) (Val (11184811 / 33554432))
     = Return [Val (11184811 / 8388608), Val (11184811 / 33554432), Val (11184811 / 33554432)]"
  by (simp add: rainbow_palette_def palette_add_def long_defs d_sub_def d_add_def fmod_def
      rounding_defs ilog2.simps)

lemma default_call:
  "x11_display s \<noteq> None \<Longrightarrow>
   call_rainbow True (Val 0) (Val (11184811 / 33554432)) s
     = (Return (), s\<lparr>xlog := xlog s @ [SetGamma (Val (11184811 / 8388608)) (Val (11184811 / 33554432))
                                  (Val (11184811 / 33554432)) True, Flush]\<rparr>)"
  by (simp add: call_rainbow_def default_palette change_gamma_def gamma_in_range_def fp_ge_def
      f_0_1_eq f_10_eq)

lemma elapsed_zero: "d_mul (d_sub (Val 100) (Val 100)) (Val 1) = Val 0"
  by (simp add: d_mul_def d_sub_def d_add_def rounding_defs ilog2.simps)

lemma elapsed_three: "d_sub (Val 103) (Val 100) = Val 3" "d_sub (Val 101) (Val 100) = Val 1"
  by (simp_all add: d_sub_def d_add_def rounding_defs ilog2.simps)

lemma example_run:
  "run (startup (\<lambda>a. Val 2) (Some (7, 0)) (Some (100, 0)) [])
     [Step \<lparr>now = None, gamma_ok = True\<rparr>, Step \<lparr>now = Some (100, 0), gamma_ok = True\<rparr>, Signal,
      Step \<lparr>now = None, gamma_ok = True\<rparr>]
   = \<lparr>proc = initial_process\<lparr>x11_display := Some 7, x11_screen := 0, pending_quit := 1,
                    atexit_fns := [Quit_application],
                    xlog := [OpenDisplay, SetGamma (Val (11184811 / 8388608)) (Val (11184811 / 33554432))
                                  (Val (11184811 / 33554432)) True, Flush]\<rparr>,
        cfg = default_config, start_time = Val 100, pc = Check\<rparr>"
  by (simp add: startup_example fire_def step_def default_config_def default_luminosity
      get_time_Some clock_values elapsed_zero default_call initial_process_def handle_signal_def)

lemma example_run_limit:
  "run (startup (\<lambda>a. Val 2) (Some (7, 0)) (Some (100, 0)) [''-t'', ''2''])
     [Step \<lparr>now = Some (103, 0), gamma_ok = True\<rparr>]
   = \<lparr>proc = initial_process\<lparr>x11_display := Some 7, x11_screen := 0,
                    atexit_fns := [Quit_application], xlog := [OpenDisplay]\<rparr>,
        cfg = default_config\<lparr>time_limit := Val 2\<rparr>, start_time = Val 100, pc = Exiting EXIT_SUCCESS\<rparr>"
  "run (startup (\<lambda>a. Val 2) (Some (7, 0)) (Some (100, 0)) [''-t'', ''2''])
     [Step \<lparr>now = Some (103, 0), gamma_ok = True\<rparr>, Step \<lparr>now = None, gamma_ok = True\<rparr>]
   = \<lparr>proc = initial_process\<lparr>x11_display := None, x11_screen := 0,
                    atexit_fns := [],
                    xlog := [OpenDisplay, SetGamma f_1 f_1 f_1 True, Flush, CloseDisplay]\<rparr>,
        cfg = default_config\<lparr>time_limit := Val 2\<rparr>, start_time = Val 100, pc = Ended (Exit EXIT_SUCCESS)\<rparr>"
  by (simp_all add: startup_example fire_def step_def default_config_def
      get_time_Some clock_values elapsed_three initial_process_def fp_ge_def
      quit_application_effect c_exit_def)

lemma gamma_calls_append [simp]: "gamma_calls (xs @ ys) = gamma_calls xs + gamma_calls ys"
  by (simp add: gamma_calls_def)

lemma gamma_calls_simps [simp]:
  "gamma_calls [] = 0"
  "gamma_calls (SetGamma r g b ok # xs) = Suc (gamma_calls xs)"
  "gamma_calls (Flush # xs) = gamma_calls xs"
  by (simp_all add: gamma_calls_def)

lemma proc_halt [simp]: "proc (halt e m) = proc m"
  by (cases e) (simp_all add: halt_def c_exit_def)

lemma proc_c_exit [simp]: "proc (c_exit status m) = proc m"
  by (simp add: c_exit_def)

lemma not_in_loop_halt [simp]: "\<not> in_loop (pc (halt e m))"
  by (cases e) (simp_all add: halt_def c_exit_def)

lemma not_in_loop_c_exit [simp]: "\<not> in_loop (pc (c_exit status m))"
  by (simp add: c_exit_def)

lemma quit_application_flag:
  "quit_application ok s = (out, s') \<Longrightarrow> pending_quit s' = pending_quit s"
  by (auto simp: quit_application_def split: prod.splits outcome.splits if_splits
      dest!: change_gamma_effect)

lemma step_pending_quit: "pending_quit (proc (step i m)) = pending_quit (proc m)"
proof (cases "pc m")
  case Cond
  then show ?thesis
    by (auto simp: step_def split: prod.splits outcome.splits dest!: get_time_effect)
next
  case Body
  then show ?thesis
    by (auto simp: step_def split: prod.splits outcome.splits
        dest!: get_time_effect call_rainbow_effect)
next
  case (Exiting status)
  then show ?thesis
    by (auto simp: step_def split: prod.splits outcome.splits list.splits handler.splits stop.splits
        dest!: quit_application_flag)
qed (simp_all add: step_def)

lemma step_leaves_loop: "\<not> in_loop (pc m) \<Longrightarrow> \<not> in_loop (pc (step i m))"
  by (cases "pc m")
     (auto simp: step_def split: prod.splits outcome.splits list.splits handler.splits stop.splits)

lemma step_Cond:
  assumes "pc m = Cond" "in_loop (pc (step i m))"
  shows "pc (step i m) = Body" "xlog (proc (step i m)) = xlog (proc m)"
  using assms
  by (auto simp: step_def split: prod.splits outcome.splits if_splits dest!: get_time_effect)

lemma step_Body:
  assumes "pc m = Body" "in_loop (pc (step i m))"
  shows "pc (step i m) = Yield" "gamma_calls (xlog (proc (step i m))) = gamma_calls (xlog (proc m)) + 1"
proof -
  obtain out s where g: "get_time (now i) (proc m) = (out, s)" by (cases "get_time (now i) (proc m)")
  note e = get_time_effect [OF g]
  obtain tm where tm: "out = Return tm"
    using assms g by (cases out) (auto simp: step_def)
  obtain out' s' where c: "call_rainbow (gamma_ok i) (d_mul (d_sub tm (start_time m)) (speed (cfg m)))
                       (luminosity (cfg m)) s = (out', s')"
    by (cases "call_rainbow (gamma_ok i) (d_mul (d_sub tm (start_time m)) (speed (cfg m)))
                       (luminosity (cfg m)) s")
  note e' = call_rainbow_effect [OF c]
  obtain u where u: "out' = Return u"
    using assms g tm c by (cases out') (auto simp: step_def)
  have st: "step i m = m\<lparr>proc := s', pc := Yield\<rparr>"
    using assms(1) g tm c u by (simp add: step_def)
  show "pc (step i m) = Yield" by (simp add: st)
  show "gamma_calls (xlog (proc (step i m))) = gamma_calls (xlog (proc m)) + 1"
    using e e' u by (auto simp: st)
qed

lemma step_Yield: "pc m = Yield \<Longrightarrow> step i m = m\<lparr>pc := Check\<rparr>"
  by (simp add: step_def)

lemma step_Check: "pc m = Check \<Longrightarrow> pending_quit (proc m) \<noteq> 0 \<Longrightarrow> \<not> in_loop (pc (step i m))"
  by (simp add: step_def)

lemma loop_rank_0: "\<not> in_loop p \<Longrightarrow> loop_rank p = 0"
  by (cases p) simp_all

lemma step_rank:
  assumes "pending_quit (proc m) \<noteq> 0"
  shows "loop_rank (pc (step i m)) \<le> loop_rank (pc m) - 1"
proof (cases "in_loop (pc (step i m))")
  case False
  then show ?thesis by (simp add: loop_rank_0)
next
  case True
  then have "in_loop (pc m)" using step_leaves_loop by blast
  then show ?thesis using True assms step_Cond(1) [of m i] step_Body(1) [of m i] step_Yield [of m i]
      step_Check [of m i]
    by (cases "pc m") auto
qed

lemma step_since_flag: "since_flag k m \<Longrightarrow> since_flag k (step i m)"
proof -
  assume a: "since_flag k m"
  then have f: "pending_quit (proc m) \<noteq> 0" by (simp add: since_flag_def)
  show ?thesis
  proof (cases "in_loop (pc (step i m))")
    case False
    then show ?thesis using f by (simp add: since_flag_def step_pending_quit)
  next
    case True
    then have l: "in_loop (pc m)" using step_leaves_loop by blast
    then show ?thesis
    proof (cases "pc m")
      case Cond
      then show ?thesis using a True step_Cond [of m i]
        by (simp add: since_flag_def step_pending_quit)
    next
      case Body
      then show ?thesis using a True step_Body [of m i]
        by (simp add: since_flag_def step_pending_quit)
    next
      case Yield
      then show ?thesis using a by (simp add: since_flag_def step_Yield)
    next
      case Check
      then show ?thesis using True f step_Check [of m i] by simp
    qed simp_all
  qed
qed

lemma fire_since_flag: "since_flag k m \<Longrightarrow> since_flag k (fire m ev)"
proof (cases ev)
  case Signal
  assume "since_flag k m"
  then show ?thesis using Signal
    by (cases "pc m") (simp_all add: fire_def since_flag_def handle_signal_def)
next
  case (Step i)
  assume "since_flag k m"
  then show ?thesis using Step by (simp add: fire_def step_since_flag)
qed

lemma steps_simps [simp]: "steps [] = 0" "steps (Signal # evs) = steps evs"
  "steps (Step i # evs) = Suc (steps evs)"
  by (simp_all add: steps_def)

lemma run_since_flag: "since_flag k m \<Longrightarrow> since_flag k (run m evs)"
  by (induction evs arbitrary: m) (simp_all add: fire_since_flag)

lemma run_rank:
  "pending_quit (proc m) \<noteq> 0 \<Longrightarrow> loop_rank (pc (run m evs)) \<le> loop_rank (pc m) - steps evs"
proof (induction evs arbitrary: m)
  case Nil
  then show ?case by simp
next
  case (Cons ev evs)
  show ?case
  proof (cases ev)
    case Signal
    have "pending_quit (proc (fire m Signal)) \<noteq> 0" "pc (fire m Signal) = pc m"
      using Cons.prems by (auto simp: fire_def handle_signal_def split: pc.splits)
    then show ?thesis using Cons.IH [of "fire m Signal"] Signal by simp
  next
    case (Step i)
    have "pending_quit (proc (step i m)) \<noteq> 0" using Cons.prems by (simp add: step_pending_quit)
    then have "loop_rank (pc (run (step i m) evs)) \<le> loop_rank (pc (step i m)) - steps evs"
      by (rule Cons.IH)
    also have "\<dots> \<le> loop_rank (pc m) - 1 - steps evs"
      using step_rank [OF Cons.prems, of i] by simp
    finally show ?thesis using Step by (simp add: fire_def)
  qed
qed

lemma loop_rank_le_4: "loop_rank p \<le> 4"
  by (cases p) simp_all

lemma in_loop_rank: "in_loop p \<Longrightarrow> 0 < loop_rank p"
  by (cases p) simp_all


subsection \<open>The range assertion of the gamma sink\<close>

lemma abort_palette:
  "rainbow_palette (Val 0) (Val (19 / 2)) = Return [Val (21 / 2), Val (19 / 2), Val (19 / 2)]"
  by (simp add: rainbow_palette_def palette_add_def long_defs d_sub_def d_add_def fmod_def
        rounding_defs ilog2.simps)

lemma abort_call: "call_rainbow ok (Val 0) (Val (19 / 2)) s = (Stop Abort, s)"
  by (simp add: call_rainbow_def abort_palette change_gamma_def gamma_in_range_def fp_ge_def
        f_0_1_eq f_10_eq)

lemma abort_parse:
  "parse_args (\<lambda>a. Val (19 / 2)) [''-l'', ''9.5''] default_config
       = Proceed (default_config\<lparr>luminosity := Val (19 / 2)\<rparr>)"
  by (simp add: parse_args.simps is_flag_def f_0_1_eq f_9_9_eq fp_greater_def rounding_defs
        ilog2.simps)

lemma abort_startup:
  "startup (\<lambda>a. Val (19 / 2)) (Some (7, 0)) (Some (100, 0)) [''-l'', ''9.5'']
   = \<lparr>proc = initial_process\<lparr>x11_display := Some 7, x11_screen := 0,
                    atexit_fns := [Quit_application], xlog := [OpenDisplay]\<rparr>,
      cfg = default_config\<lparr>luminosity := Val (19 / 2)\<rparr>, start_time = Val 100, pc = Cond\<rparr>"
  by (simp add: startup_def abort_parse get_time_Some clock_values)

lemma abort_run:
  "run (startup (\<lambda>a. Val (19 / 2)) (Some (7, 0)) (Some (100, 0)) [''-l'', ''9.5''])
     [Step \<lparr>now = None, gamma_ok = True\<rparr>, Step \<lparr>now = Some (100, 0), gamma_ok = True\<rparr>]
   = \<lparr>proc = initial_process\<lparr>x11_display := Some 7, x11_screen := 0,
                    atexit_fns := [Quit_application], xlog := [OpenDisplay]\<rparr>,
      cfg = default_config\<lparr>luminosity := Val (19 / 2)\<rparr>, start_time = Val 100, pc = Ended Abort\<rparr>"
  by (simp add: abort_startup fire_def step_def default_config_def get_time_Some clock_values
      elapsed_zero abort_call halt_def)

text \<open>
  Claim C1 says that for every luminosity in [0.1, 9.9] and every elapsed time the three
  channels that \<^verbatim>\<open>call_rainbow\<close> passes to \<^verbatim>\<open>change_gamma\<close> lie in [0.1, 10.0], so that
  the assertions of \<^verbatim>\<open>change_gamma\<close> never fail. The code does otherwise: the luminosity
  9.5 passes the validation of the command line, and at time 0 the red channel is
  9.5 + 1.0 = 10.5, which the assertion \<^verbatim>\<open>r <= 10.0f\<close> refuses. The process started with
  \<^verbatim>\<open>-l 9.5\<close> aborts in its first iteration, with nothing sent to the display but the
  request that opened it.
\<close>

theorem call_rainbow_assertion_fails:
  "parse_args (\<lambda>a. Val (19 / 2)) [''-l'', ''9.5''] default_config
       = Proceed (default_config\<lparr>luminosity := Val (19 / 2)\<rparr>)
   \<and> rainbow_palette (Val 0) (Val (19 / 2)) = Return [Val (21 / 2), Val (19 / 2), Val (19 / 2)]
   \<and> call_rainbow ok (Val 0) (Val (19 / 2)) s = (Stop Abort, s)
   \<and> pc (run (startup (\<lambda>a. Val (19 / 2)) (Some (7, 0)) (Some (100, 0)) [''-l'', ''9.5''])
            [Step \<lparr>now = None, gamma_ok = True\<rparr>, Step \<lparr>now = Some (100, 0), gamma_ok = True\<rparr>])
       = Ended Abort
   \<and> xlog (proc (run (startup (\<lambda>a. Val (19 / 2)) (Some (7, 0)) (Some (100, 0)) [''-l'', ''9.5''])
            [Step \<lparr>now = None, gamma_ok = True\<rparr>, Step \<lparr>now = Some (100, 0), gamma_ok = True\<rparr>]))
       = [OpenDisplay]"
  by (simp only: abort_parse abort_palette abort_call abort_run)
     (simp add: initial_process_def)

subsection \<open>The time limit\<close>

text \<open>
  Claim C7: with a non-negative time limit \<open>T\<close> the loop condition does not end the loop
  while the elapsed time it observes is at most \<open>T\<close>, and it ends the loop, for the
  teardown, as soon as it observes an elapsed time above \<open>T\<close>; with a negative time limit
  the loop condition never ends the loop (it does not read the clock). Here \<open>m\<close> is at
  the loop condition, \<open>tm\<close> is the time that \<^verbatim>\<open>get_time\<close> returns there, and the elapsed
  time is \<open>d_sub tm (start_time m)\<close>.
\<close>

theorem time_limit_boundary:
  assumes "pc m = Cond" and "atexit_fns (proc m) = [Quit_application]"
  shows "(fp_less (time_limit (cfg m)) (Val 0) \<longrightarrow> pc (step i m) = Body)
       \<and> (fp_ge (time_limit (cfg m)) (Val 0) \<and> get_time (now i) (proc m) = (Return tm, s)
            \<and> fp_le (d_sub tm (start_time m)) (time_limit (cfg m))
          \<longrightarrow> pc (step i m) = Body)
       \<and> (fp_ge (time_limit (cfg m)) (Val 0) \<and> get_time (now i) (proc m) = (Return tm, s)
            \<and> fp_greater (d_sub tm (start_time m)) (time_limit (cfg m))
          \<longrightarrow> pc (step i m) = Exiting EXIT_SUCCESS)"
  using assms
  by (auto simp: step_def fp_ge_zero_not_less fp_ge_def fp_greater_def c_exit_def
      dest: fp_less_not_le get_time_Return)


theorem time_limit_boundary_witness:
  "(let m = startup (\<lambda>a. Val 2) (Some (7, 0)) (Some (100, 0)) [''-t'', ''2''];
        m' = startup (\<lambda>a. Val 2) (Some (7, 0)) (Some (100, 0)) []
    in pc m = Cond \<and> atexit_fns (proc m) = [Quit_application]
       \<and> fp_ge (time_limit (cfg m)) (Val 0)
       \<and> get_time (Some (101, 0)) (proc m) = (Return (Val 101), proc m)
       \<and> fp_le (d_sub (Val 101) (start_time m)) (time_limit (cfg m))
       \<and> pc (step \<lparr>now = Some (101, 0), gamma_ok = True\<rparr> m) = Body
       \<and> get_time (Some (103, 0)) (proc m) = (Return (Val 103), proc m)
       \<and> fp_greater (d_sub (Val 103) (start_time m)) (time_limit (cfg m))
       \<and> pc (step \<lparr>now = Some (103, 0), gamma_ok = True\<rparr> m) = Exiting EXIT_SUCCESS
       \<and> pc m' = Cond \<and> atexit_fns (proc m') = [Quit_application]
       \<and> fp_less (time_limit (cfg m')) (Val 0)
       \<and> pc (step \<lparr>now = None, gamma_ok = True\<rparr> m') = Body)"
proof -
  define m where "m = startup (\<lambda>a. Val 2) (Some (7, 0)) (Some (100, 0)) [''-t'', ''2'']"
  define m' where "m' = startup (\<lambda>a. Val 2) (Some (7, 0)) (Some (100, 0)) []"
  have m: "m = \<lparr>proc = initial_process\<lparr>x11_display := Some 7, x11_screen := 0,
                    atexit_fns := [Quit_application], xlog := [OpenDisplay]\<rparr>,
                 cfg = default_config\<lparr>time_limit := Val 2\<rparr>, start_time = Val 100, pc = Cond\<rparr>"
    by (simp add: m_def startup_def parse_args.simps is_flag_def get_time_Some clock_values)
  have m': "m' = \<lparr>proc = initial_process\<lparr>x11_display := Some 7, x11_screen := 0,
                    atexit_fns := [Quit_application], xlog := [OpenDisplay]\<rparr>,
                 cfg = default_config, start_time = Val 100, pc = Cond\<rparr>"
    by (simp add: m'_def startup_def parse_args.simps is_flag_def get_time_Some clock_values)
  have a: "pc m = Cond" "atexit_fns (proc m) = [Quit_application]"
    "pc m' = Cond" "atexit_fns (proc m') = [Quit_application]"
    by (simp_all add: m m')
  have g: "get_time (Some (101, 0)) (proc m) = (Return (Val 101), proc m)"
    "get_time (Some (103, 0)) (proc m) = (Return (Val 103), proc m)"
    by (simp_all add: get_time_Some clock_values)
  have c: "fp_ge (time_limit (cfg m)) (Val 0)"
    "fp_le (d_sub (Val 101) (start_time m)) (time_limit (cfg m))"
    "fp_greater (d_sub (Val 103) (start_time m)) (time_limit (cfg m))"
    "fp_less (time_limit (cfg m')) (Val 0)"
    by (simp_all add: m m' fp_ge_def fp_greater_def default_config_def d_sub_def d_add_def
        rounding_defs ilog2.simps)
  from time_limit_boundary [OF a(1,2), of "\<lparr>now = Some (101, 0), gamma_ok = True\<rparr>" "Val 101" "proc m"]
    time_limit_boundary [OF a(1,2), of "\<lparr>now = Some (103, 0), gamma_ok = True\<rparr>" "Val 103" "proc m"]
    time_limit_boundary [OF a(3,4), of "\<lparr>now = None, gamma_ok = True\<rparr>"]
    a g c
  show ?thesis unfolding Let_def m_def [symmetric] m'_def [symmetric] by simp
qed

subsection \<open>The teardown\<close>

text \<open>
  Claim C8: on every path on which the process, once in the loop, ends by an exit (the
  loop condition fails, the stop flag is seen, or a call fails with \<^verbatim>\<open>exit\<close>), the gamma
  is reset to (1.0, 1.0, 1.0) before the connection is released, and this happens exactly
  once. In the log: a process that has ended with an exit status has a log that ends with
  the accepted neutral gamma request, the flush and the release, and has no other release;
  a release is never in the log of a process that has not ended so; from an exit the next
  step is the teardown, which ends the process with the status when the server accepts the
  request (a refusal calls \<^verbatim>\<open>exit\<close> inside the exit, which is undefined); and the test of a
  set stop flag leads to the exit with the success status.
\<close>

theorem teardown_exactly_once:
  assumes "in_loop (pc (startup atof dpy ts args))"
  shows "(pc (run (startup atof dpy ts args) evs) = Ended (Exit status)
          \<longrightarrow> torn_down (xlog (proc (run (startup atof dpy ts args) evs)))
            \<and> x11_display (proc (run (startup atof dpy ts args) evs)) = None)
       \<and> (CloseDisplay \<in> set (xlog (proc (run (startup atof dpy ts args) evs)))
          \<longrightarrow> torn_down (xlog (proc (run (startup atof dpy ts args) evs)))
            \<and> (\<exists>st. pc (run (startup atof dpy ts args) evs) = Ended (Exit st)))
       \<and> (pc (run (startup atof dpy ts args) evs) = Exiting status
          \<longrightarrow> pc (step i (run (startup atof dpy ts args) evs))
              = (if gamma_ok i then Ended (Exit status) else Ended Undefined))
       \<and> (pc (run (startup atof dpy ts args) evs) = Check
            \<and> pending_quit (proc (run (startup atof dpy ts args) evs)) \<noteq> 0
          \<longrightarrow> pc (step i (run (startup atof dpy ts args) evs)) = Exiting EXIT_SUCCESS)"
proof -
  define m where "m = run (startup atof dpy ts args) evs"
  have inv: "teardown_inv m"
    unfolding m_def using assms by (intro run_teardown_inv startup_teardown_inv)
  have 1: "torn_down (xlog (proc m)) \<and> x11_display (proc m) = None" if "pc m = Ended (Exit status)"
    using inv that by (simp add: teardown_inv_def)
  have 2: "torn_down (xlog (proc m)) \<and> (\<exists>st. pc m = Ended (Exit st))"
    if "CloseDisplay \<in> set (xlog (proc m))"
    using inv that by (cases "pc m") (auto simp: teardown_inv_def split: stop.splits)
  have 3: "pc (step i m) = (if gamma_ok i then Ended (Exit status) else Ended Undefined)"
    if "pc m = Exiting status"
    using inv that
    by (simp add: teardown_inv_def step_def quit_application_effect c_exit_def)
  have 4: "pc (step i m) = Exiting EXIT_SUCCESS" if "pc m = Check \<and> pending_quit (proc m) \<noteq> 0"
    using inv that by (simp add: teardown_inv_def step_def c_exit_def)
  from 1 2 3 4 show ?thesis unfolding m_def by blast
qed



theorem teardown_exactly_once_witness:
  "in_loop (pc (startup (\<lambda>a. Val 2) (Some (7, 0)) (Some (100, 0)) [''-t'', ''2'']))
   \<and> pc (run (startup (\<lambda>a. Val 2) (Some (7, 0)) (Some (100, 0)) [''-t'', ''2''])
           [Step \<lparr>now = Some (103, 0), gamma_ok = True\<rparr>, Step \<lparr>now = None, gamma_ok = True\<rparr>])
       = Ended (Exit EXIT_SUCCESS)
   \<and> CloseDisplay \<in> set (xlog (proc (run (startup (\<lambda>a. Val 2) (Some (7, 0)) (Some (100, 0)) [''-t'', ''2''])
           [Step \<lparr>now = Some (103, 0), gamma_ok = True\<rparr>, Step \<lparr>now = None, gamma_ok = True\<rparr>])))
   \<and> torn_down (xlog (proc (run (startup (\<lambda>a. Val 2) (Some (7, 0)) (Some (100, 0)) [''-t'', ''2''])
           [Step \<lparr>now = Some (103, 0), gamma_ok = True\<rparr>, Step \<lparr>now = None, gamma_ok = True\<rparr>])))
   \<and> pc (run (startup (\<lambda>a. Val 2) (Some (7, 0)) (Some (100, 0)) [''-t'', ''2''])
           [Step \<lparr>now = Some (103, 0), gamma_ok = True\<rparr>]) = Exiting EXIT_SUCCESS
   \<and> pc (step \<lparr>now = None, gamma_ok = True\<rparr>
          (run (startup (\<lambda>a. Val 2) (Some (7, 0)) (Some (100, 0)) [''-t'', ''2''])
           [Step \<lparr>now = Some (103, 0), gamma_ok = True\<rparr>])) = Ended (Exit EXIT_SUCCESS)
   \<and> in_loop (pc (startup (\<lambda>a. Val 2) (Some (7, 0)) (Some (100, 0)) []))
   \<and> pc (run (startup (\<lambda>a. Val 2) (Some (7, 0)) (Some (100, 0)) [])
         [Step \<lparr>now = None, gamma_ok = True\<rparr>, Step \<lparr>now = Some (100, 0), gamma_ok = True\<rparr>, Signal,
          Step \<lparr>now = None, gamma_ok = True\<rparr>]) = Check
   \<and> pending_quit (proc (run (startup (\<lambda>a. Val 2) (Some (7, 0)) (Some (100, 0)) [])
         [Step \<lparr>now = None, gamma_ok = True\<rparr>, Step \<lparr>now = Some (100, 0), gamma_ok = True\<rparr>, Signal,
          Step \<lparr>now = None, gamma_ok = True\<rparr>])) \<noteq> 0
   \<and> pc (step \<lparr>now = None, gamma_ok = True\<rparr> (run (startup (\<lambda>a. Val 2) (Some (7, 0)) (Some (100, 0)) [])
         [Step \<lparr>now = None, gamma_ok = True\<rparr>, Step \<lparr>now = Some (100, 0), gamma_ok = True\<rparr>, Signal,
          Step \<lparr>now = None, gamma_ok = True\<rparr>])) = Exiting EXIT_SUCCESS"
proof -
  have a: "in_loop (pc (startup (\<lambda>a. Val 2) (Some (7, 0)) (Some (100, 0)) [''-t'', ''2'']))"
    "in_loop (pc (startup (\<lambda>a. Val 2) (Some (7, 0)) (Some (100, 0)) []))"
    by (simp_all add: startup_example)
  have b: "pc (run (startup (\<lambda>a. Val 2) (Some (7, 0)) (Some (100, 0)) [''-t'', ''2''])
           [Step \<lparr>now = Some (103, 0), gamma_ok = True\<rparr>, Step \<lparr>now = None, gamma_ok = True\<rparr>])
       = Ended (Exit EXIT_SUCCESS)"
    "CloseDisplay \<in> set (xlog (proc (run (startup (\<lambda>a. Val 2) (Some (7, 0)) (Some (100, 0)) [''-t'', ''2''])
           [Step \<lparr>now = Some (103, 0), gamma_ok = True\<rparr>, Step \<lparr>now = None, gamma_ok = True\<rparr>])))"
    "pc (run (startup (\<lambda>a. Val 2) (Some (7, 0)) (Some (100, 0)) [''-t'', ''2''])
           [Step \<lparr>now = Some (103, 0), gamma_ok = True\<rparr>]) = Exiting EXIT_SUCCESS"
    by (simp_all only: example_run_limit) (simp_all add: initial_process_def)
  have c: "pc (run (startup (\<lambda>a. Val 2) (Some (7, 0)) (Some (100, 0)) [])
         [Step \<lparr>now = None, gamma_ok = True\<rparr>, Step \<lparr>now = Some (100, 0), gamma_ok = True\<rparr>, Signal,
          Step \<lparr>now = None, gamma_ok = True\<rparr>]) = Check"
    "pending_quit (proc (run (startup (\<lambda>a. Val 2) (Some (7, 0)) (Some (100, 0)) [])
         [Step \<lparr>now = None, gamma_ok = True\<rparr>, Step \<lparr>now = Some (100, 0), gamma_ok = True\<rparr>, Signal,
          Step \<lparr>now = None, gamma_ok = True\<rparr>])) \<noteq> 0"
    by (simp_all only: example_run) (simp_all add: initial_process_def)
  note t1 = teardown_exactly_once [OF a(1), of "[Step \<lparr>now = Some (103, 0), gamma_ok = True\<rparr>,
      Step \<lparr>now = None, gamma_ok = True\<rparr>]" EXIT_SUCCESS]
  note t2 = teardown_exactly_once [OF a(1), of "[Step \<lparr>now = Some (103, 0), gamma_ok = True\<rparr>]"
      EXIT_SUCCESS "\<lparr>now = None, gamma_ok = True\<rparr>"]
  note t3 = teardown_exactly_once [OF a(2), of "[Step \<lparr>now = None, gamma_ok = True\<rparr>,
      Step \<lparr>now = Some (100, 0), gamma_ok = True\<rparr>, Signal, Step \<lparr>now = None, gamma_ok = True\<rparr>]"
      EXIT_SUCCESS "\<lparr>now = None, gamma_ok = True\<rparr>"]
  have 1: "torn_down (xlog (proc (run (startup (\<lambda>a. Val 2) (Some (7, 0)) (Some (100, 0)) [''-t'', ''2''])
           [Step \<lparr>now = Some (103, 0), gamma_ok = True\<rparr>, Step \<lparr>now = None, gamma_ok = True\<rparr>])))"
    using t1 b(1) by blast
  have 2: "pc (step \<lparr>now = None, gamma_ok = True\<rparr>
          (run (startup (\<lambda>a. Val 2) (Some (7, 0)) (Some (100, 0)) [''-t'', ''2''])
           [Step \<lparr>now = Some (103, 0), gamma_ok = True\<rparr>])) = Ended (Exit EXIT_SUCCESS)"
    using t2 b(3) by simp
  have 3: "pc (step \<lparr>now = None, gamma_ok = True\<rparr> (run (startup (\<lambda>a. Val 2) (Some (7, 0)) (Some (100, 0)) [])
         [Step \<lparr>now = None, gamma_ok = True\<rparr>, Step \<lparr>now = Some (100, 0), gamma_ok = True\<rparr>, Signal,
          Step \<lparr>now = None, gamma_ok = True\<rparr>])) = Exiting EXIT_SUCCESS"
    using t3 c by blast
  from a b c 1 2 3 show ?thesis by blast
qed


subsection \<open>The stop flag\<close>

text \<open>
  Claim C9: once a signal has set the stop flag, the loop is left within one further
  iteration. For a process in the loop that receives a signal: the flag is 1; whatever
  happens afterwards, as long as the loop is not left at most one more gamma request has
  been made; and after four program steps (the loop condition, the call of
  \<^verbatim>\<open>call_rainbow\<close>, the yield and the test of the flag) the loop is left.
\<close>

theorem stop_flag_latency:
  assumes "in_loop (pc m)"
  shows "pending_quit (proc (fire m Signal)) = 1
       \<and> (in_loop (pc (run (fire m Signal) evs))
          \<longrightarrow> gamma_calls (xlog (proc (run (fire m Signal) evs))) \<le> gamma_calls (xlog (proc m)) + 1)
       \<and> (4 \<le> steps evs \<longrightarrow> \<not> in_loop (pc (run (fire m Signal) evs)))"
proof -
  define m1 where "m1 = fire m Signal"
  have m1: "pending_quit (proc m1) = 1" "pc m1 = pc m" "xlog (proc m1) = xlog (proc m)"
    using assms by (cases "pc m"; simp add: m1_def fire_def handle_signal_def)+
  have "since_flag (gamma_calls (xlog (proc m))) m1"
    using m1 by (simp add: since_flag_def)
  then have "since_flag (gamma_calls (xlog (proc m))) (run m1 evs)" by (rule run_since_flag)
  then have 2: "gamma_calls (xlog (proc (run m1 evs))) \<le> gamma_calls (xlog (proc m)) + 1"
    if "in_loop (pc (run m1 evs))"
    using that by (simp add: since_flag_def)
  have "loop_rank (pc (run m1 evs)) \<le> loop_rank (pc m1) - steps evs"
    using m1 by (intro run_rank) simp
  then have 3: "\<not> in_loop (pc (run m1 evs))" if "4 \<le> steps evs"
    using that loop_rank_le_4 [of "pc m1"] in_loop_rank [of "pc (run m1 evs)"] by fastforce
  from m1(1) 2 3 show ?thesis unfolding m1_def by blast
qed


theorem stop_flag_latency_witness:
  "in_loop (pc (startup (\<lambda>a. Val 2) (Some (7, 0)) (Some (100, 0)) []))
   \<and> 4 \<le> steps [Step \<lparr>now = None, gamma_ok = True\<rparr>, Step \<lparr>now = Some (100, 0), gamma_ok = True\<rparr>,
                 Step \<lparr>now = None, gamma_ok = True\<rparr>, Step \<lparr>now = None, gamma_ok = True\<rparr>]
   \<and> in_loop (pc (run (fire (startup (\<lambda>a. Val 2) (Some (7, 0)) (Some (100, 0)) []) Signal)
        [Step \<lparr>now = None, gamma_ok = True\<rparr>, Step \<lparr>now = Some (100, 0), gamma_ok = True\<rparr>]))
   \<and> gamma_calls (xlog (proc (run (fire (startup (\<lambda>a. Val 2) (Some (7, 0)) (Some (100, 0)) []) Signal)
        [Step \<lparr>now = None, gamma_ok = True\<rparr>, Step \<lparr>now = Some (100, 0), gamma_ok = True\<rparr>])))
      \<le> gamma_calls (xlog (proc (startup (\<lambda>a. Val 2) (Some (7, 0)) (Some (100, 0)) []))) + 1
   \<and> pending_quit (proc (fire (startup (\<lambda>a. Val 2) (Some (7, 0)) (Some (100, 0)) []) Signal)) = 1
   \<and> \<not> in_loop (pc (run (fire (startup (\<lambda>a. Val 2) (Some (7, 0)) (Some (100, 0)) []) Signal)
        [Step \<lparr>now = None, gamma_ok = True\<rparr>, Step \<lparr>now = Some (100, 0), gamma_ok = True\<rparr>,
         Step \<lparr>now = None, gamma_ok = True\<rparr>, Step \<lparr>now = None, gamma_ok = True\<rparr>]))"
proof -
  have a: "in_loop (pc (startup (\<lambda>a. Val 2) (Some (7, 0)) (Some (100, 0)) []))"
    by (simp add: startup_example)
  have b: "4 \<le> steps [Step \<lparr>now = None, gamma_ok = True\<rparr>, Step \<lparr>now = Some (100, 0), gamma_ok = True\<rparr>,
                 Step \<lparr>now = None, gamma_ok = True\<rparr>, Step \<lparr>now = None, gamma_ok = True\<rparr>]"
    by simp
  have c: "in_loop (pc (run (fire (startup (\<lambda>a. Val 2) (Some (7, 0)) (Some (100, 0)) []) Signal)
        [Step \<lparr>now = None, gamma_ok = True\<rparr>, Step \<lparr>now = Some (100, 0), gamma_ok = True\<rparr>]))"
    by (simp add: startup_example fire_def step_def default_config_def default_luminosity
      get_time_Some clock_values elapsed_zero default_call initial_process_def handle_signal_def)
  from stop_flag_latency [OF a, of "[Step \<lparr>now = None, gamma_ok = True\<rparr>,
          Step \<lparr>now = Some (100, 0), gamma_ok = True\<rparr>]"]
    stop_flag_latency [OF a, of "[Step \<lparr>now = None, gamma_ok = True\<rparr>,
          Step \<lparr>now = Some (100, 0), gamma_ok = True\<rparr>,
          Step \<lparr>now = None, gamma_ok = True\<rparr>, Step \<lparr>now = None, gamma_ok = True\<rparr>]"]
    a b c
  show ?thesis by blast
qed

end
